theory Spec2Isabelle
  imports Main "HOL-Library.Word" "HOL-Library.List_Lexorder"
begin

unbundle bit_operations_syntax

section \<open>Data model of commit-graph.c\<close>

type_synonym byte = "8 word"
type_synonym uint32_t = "32 word"
type_synonym uint64_t = "64 word"

text \<open>
  \<^verbatim>\<open>struct object_id\<close> holds the raw digest \<^verbatim>\<open>hash[]\<close>; the writer uses its first
  \<^verbatim>\<open>GRAPH_OID_LEN\<close> = 20 bytes. An identifier is modelled by the list of its bytes.
\<close>

type_synonym object_id = "byte list"

text \<open>
  A parsed \<^verbatim>\<open>struct commit\<close>, reduced to the fields the writer reads:
  \<^verbatim>\<open>object.oid\<close>, \<^verbatim>\<open>tree->object.oid\<close>, the \<^verbatim>\<open>parents\<close> list (the identifier of
  each \<^verbatim>\<open>parent->item\<close>, in list order) and \<^verbatim>\<open>date\<close> (a 64-bit \<^verbatim>\<open>timestamp_t\<close>, so
  that \<^verbatim>\<open>sizeof(date) > 4\<close> holds).
\<close>

record commit =
  oid :: object_id
  tree :: object_id
  parents :: "object_id list"
  date :: uint64_t

datatype object_type = OBJ_COMMIT | OBJ_TREE | OBJ_BLOB | OBJ_TAG

text \<open>The hashed output file \<^verbatim>\<open>struct sha1file\<close>: the bytes written so far.\<close>

type_synonym sha1file = "byte list"

datatype error = Cannot_mkdir | Unable_to_create | Failed_to_rename

subsection \<open>Constants\<close>

abbreviation (input) GRAPH_SIGNATURE :: uint32_t where "GRAPH_SIGNATURE \<equiv> 0x43475048"
abbreviation (input) GRAPH_CHUNKID_OIDFANOUT :: uint32_t where "GRAPH_CHUNKID_OIDFANOUT \<equiv> 0x4f494446"
abbreviation (input) GRAPH_CHUNKID_OIDLOOKUP :: uint32_t where "GRAPH_CHUNKID_OIDLOOKUP \<equiv> 0x4f49444c"
abbreviation (input) GRAPH_CHUNKID_DATA :: uint32_t where "GRAPH_CHUNKID_DATA \<equiv> 0x43444154"
abbreviation (input) GRAPH_CHUNKID_LARGEEDGES :: uint32_t where "GRAPH_CHUNKID_LARGEEDGES \<equiv> 0x45444745"
abbreviation (input) GRAPH_VERSION :: byte where "GRAPH_VERSION \<equiv> 1"
abbreviation (input) GRAPH_OID_VERSION :: byte where "GRAPH_OID_VERSION \<equiv> 1"
abbreviation (input) GRAPH_OID_LEN :: nat where "GRAPH_OID_LEN \<equiv> 20"
abbreviation (input) GRAPH_LARGE_EDGES_NEEDED :: uint32_t where "GRAPH_LARGE_EDGES_NEEDED \<equiv> 0x80000000"
abbreviation (input) GRAPH_PARENT_MISSING :: uint32_t where "GRAPH_PARENT_MISSING \<equiv> 0x7fffffff"
abbreviation (input) GRAPH_PARENT_NONE :: uint32_t where "GRAPH_PARENT_NONE \<equiv> 0x70000000"
abbreviation (input) GRAPH_LAST_EDGE :: uint32_t where "GRAPH_LAST_EDGE \<equiv> 0x80000000"
abbreviation (input) GRAPH_FANOUT_SIZE :: int where "GRAPH_FANOUT_SIZE \<equiv> 4 * 256"
abbreviation (input) GRAPH_CHUNKLOOKUP_WIDTH :: int where "GRAPH_CHUNKLOOKUP_WIDTH \<equiv> 12"
abbreviation (input) GRAPH_CHUNKLOOKUP_SIZE :: int where "GRAPH_CHUNKLOOKUP_SIZE \<equiv> 5 * GRAPH_CHUNKLOOKUP_WIDTH"

subsection \<open>Collaborators declared outside commit-graph.c\<close>

text \<open>
  Modelled from the spec: \<^verbatim>\<open>oidcmp\<close> (cache.h) is not in src. The spec gives the
  identifier order as "lexicographic byte comparison"; the result is that of
  \<^verbatim>\<open>memcmp\<close> over the hash bytes (the difference of the first differing bytes, read
  unsigned). The two clauses for lists of different length are never reached on
  20-byte identifiers.
\<close>

fun oidcmp :: "object_id \<Rightarrow> object_id \<Rightarrow> int" where
  "oidcmp [] [] = 0"
| "oidcmp [] (y # ys) = - 1"
| "oidcmp (x # xs) [] = 1"
| "oidcmp (x # xs) (y # ys) = (if x = y then oidcmp xs ys else uint x - uint y)"

text \<open>
  Modelled from the spec: \<^verbatim>\<open>htonl\<close> and the streaming hash writer (\<^verbatim>\<open>sha1write\<close>,
  \<^verbatim>\<open>sha1write_u8\<close>, \<^verbatim>\<open>sha1write_be32\<close>, \<^verbatim>\<open>sha1close\<close>) are not in src. The spec has
  them "append-only with write_bytes, write_u8, write_be32", every 32-bit value
  "big-endian", and the finalizer appending "the rolling hash over all bytes written so
  far as the trailer". \<open>htonl x\<close> is the memory image of the network-order word, which is
  what the writer passes to \<^verbatim>\<open>sha1write\<close>. The hash function is a parameter.
\<close>

definition htonl :: "uint32_t \<Rightarrow> byte list" where
  "htonl x = [ucast (drop_bit 24 x), ucast (drop_bit 16 x), ucast (drop_bit 8 x), ucast x]"

definition sha1write :: "sha1file \<Rightarrow> byte list \<Rightarrow> nat \<Rightarrow> sha1file" where
  "sha1write f buf len = f @ take len buf"

definition sha1write_u8 :: "sha1file \<Rightarrow> byte \<Rightarrow> sha1file" where
  "sha1write_u8 f b = f @ [b]"

definition sha1write_be32 :: "sha1file \<Rightarrow> uint32_t \<Rightarrow> sha1file" where
  "sha1write_be32 f x = sha1write f (htonl x) 4"

definition sha1close :: "(byte list \<Rightarrow> byte list) \<Rightarrow> sha1file \<Rightarrow> sha1file \<times> byte list" where
  "sha1close sha1 f = (f @ sha1 f, sha1 f)"

text \<open>
  Modelled from the spec: \<^verbatim>\<open>sha1_to_hex\<close> is not in src; the final name is
  "graph-<hex(hash)>.graph", two lower-case hexadecimal digits per byte.
\<close>

definition hexdigit :: "nat \<Rightarrow> char" where
  "hexdigit n = ''0123456789abcdef'' ! n"

definition sha1_to_hex :: "byte list \<Rightarrow> string" where
  "sha1_to_hex h = concat (map (\<lambda>b. [hexdigit (unat b div 16), hexdigit (unat b mod 16)]) h)"

text \<open>
  Modelled from the spec: \<^verbatim>\<open>QSORT\<close> (git-compat-util.h, the C library's qsort) is not
  in src; the spec says "Sort the identifier array by byte-lexicographic order". Here it
  is an insertion sort driven by the comparison callback.
\<close>

fun qsort_insert :: "(object_id \<Rightarrow> object_id \<Rightarrow> int) \<Rightarrow> object_id \<Rightarrow> object_id list \<Rightarrow> object_id list" where
  "qsort_insert cmp x [] = [x]"
| "qsort_insert cmp x (y # ys) =
     (if cmp x y \<le> 0 then x # y # ys else y # qsort_insert cmp x ys)"

fun QSORT :: "object_id list \<Rightarrow> (object_id \<Rightarrow> object_id \<Rightarrow> int) \<Rightarrow> object_id list" where
  "QSORT [] cmp = []"
| "QSORT (x # xs) cmp = qsort_insert cmp x (QSORT xs cmp)"

text \<open>
  Modelled from the spec: \<^verbatim>\<open>lookup_commit\<close> and \<^verbatim>\<open>parse_commit\<close> are not in src. The
  interner returns the handle of the identifier it is given and the parser "populates
  tree, parents, date"; the object database is the function \<open>odb\<close> from an identifier to
  these three.
\<close>

definition lookup_commit :: "(object_id \<Rightarrow> object_id \<times> object_id list \<times> uint64_t) \<Rightarrow> object_id \<Rightarrow> commit" where
  "lookup_commit odb x =
     (case odb x of (t, ps, d) \<Rightarrow> \<lparr>oid = x, tree = t, parents = ps, date = d\<rparr>)"

text \<open>
  Modelled from the spec: \<^verbatim>\<open>for_each_packed_object\<close> is not in src; it "invokes
  cb(oid, pack, pos, user_data)" for every packed object. The packs are the list of the
  objects they enumerate, each with the type \<^verbatim>\<open>unpack_entry\<close> reports for it.
\<close>

fun for_each_packed_object ::
  "(object_id \<Rightarrow> object_type \<Rightarrow> 'd \<Rightarrow> 'd) \<Rightarrow> 'd \<Rightarrow> (object_id \<times> object_type) list \<Rightarrow> 'd" where
  "for_each_packed_object cb data [] = data"
| "for_each_packed_object cb data ((x, t) # objs) = for_each_packed_object cb (cb x t data) objs"

section \<open>The chunk writers\<close>

subsection \<open>write_graph_chunk_fanout\<close>

text \<open>
  The inner \<^verbatim>\<open>while (list < last)\<close>: returns the advanced \<open>list\<close> and \<open>count\<close>.
  \<open>oid c ! 0\<close> is \<^verbatim>\<open>hash[0]\<close>, which a 20-byte identifier always has.
\<close>

fun fanout_while :: "commit list \<Rightarrow> nat \<Rightarrow> uint32_t \<Rightarrow> commit list \<times> uint32_t" where
  "fanout_while [] i count = ([], count)"
| "fanout_while (c # list) i count =
     (if unat (oid c ! 0) \<noteq> i then (c # list, count)
      else fanout_while list i (count + 1))"

function fanout_for :: "sha1file \<Rightarrow> commit list \<Rightarrow> nat \<Rightarrow> uint32_t \<Rightarrow> sha1file" where
  "fanout_for f list i count =
     (if i < 256 then
        (case fanout_while list i count of
           (list', count') \<Rightarrow> fanout_for (sha1write_be32 f count') list' (i + 1) count')
      else f)"
  by pat_completeness auto
termination
  by (relation "measure (\<lambda>(f, list, i, count). 256 - i)") auto

declare fanout_for.simps [simp del]

definition write_graph_chunk_fanout :: "sha1file \<Rightarrow> commit list \<Rightarrow> sha1file" where
  "write_graph_chunk_fanout f commits = fanout_for f commits 0 0"

subsection \<open>write_graph_chunk_oids\<close>

fun write_graph_chunk_oids :: "sha1file \<Rightarrow> nat \<Rightarrow> commit list \<Rightarrow> sha1file" where
  "write_graph_chunk_oids f hash_len [] = f"
| "write_graph_chunk_oids f hash_len (c # list) =
     write_graph_chunk_oids (sha1write f (oid c) hash_len) hash_len list"

subsection \<open>commit_pos\<close>

text \<open>
  The binary search; the result pairs the returned \<^verbatim>\<open>int\<close> with the value stored in
  \<^verbatim>\<open>*pos\<close>. \<open>first\<close>, \<open>last'\<close> and \<open>mid\<close> are the source's \<^verbatim>\<open>uint32_t\<close> variables.
  Started with \<open>last' = nr_commits\<close>, every \<open>mid\<close> is below the length of the array.
\<close>

function commit_pos_loop ::
  "commit list \<Rightarrow> object_id \<Rightarrow> uint32_t \<Rightarrow> uint32_t \<Rightarrow> int \<times> uint32_t" where
  "commit_pos_loop commits x first last' =
    (if first < last' then
       (let mid = first + (last' - first) div 2;
            cmp = oidcmp x (oid (commits ! unat mid))
        in if cmp = 0 then (1, mid)
           else if cmp > 0 then commit_pos_loop commits x (mid + 1) last'
           else commit_pos_loop commits x first mid)
     else (0, first))"
  by pat_completeness auto
termination
proof (relation "measure (\<lambda>(commits, x, first, last'). unat last' - unat first)", goal_cases)
  case 1
  show ?case by simp
next
  case (2 commits x first last' mid cmp)
  have lt: "unat first < unat last'" using 2(1) by (simp add: word_less_nat_alt)
  have b: "unat last' < 2 ^ 32" using unsigned_less [of last'] by simp
  have d: "unat ((last' - first) div 2) = (unat last' - unat first) div 2"
    using 2(1) by (simp add: unat_div unat_sub)
  have "unat first + unat ((last' - first) div 2) < 2 ^ LENGTH(32)"
    using lt b d by simp
  then have m: "unat mid = unat first + (unat last' - unat first) div 2"
    using d 2(2) by (simp add: unat_add_lem [THEN iffD1])
  have "unat mid + unat (1 :: uint32_t) < 2 ^ LENGTH(32)"
    using lt b m by simp
  then have "unat (mid + 1) = unat mid + unat (1 :: uint32_t)"
    by (simp only: unat_add_lem [THEN iffD1])
  then show ?case using m lt by simp
next
  case (3 commits x first last' mid cmp)
  have lt: "unat first < unat last'" using 3(1) by (simp add: word_less_nat_alt)
  have b: "unat last' < 2 ^ 32" using unsigned_less [of last'] by simp
  have d: "unat ((last' - first) div 2) = (unat last' - unat first) div 2"
    using 3(1) by (simp add: unat_div unat_sub)
  have "unat first + unat ((last' - first) div 2) < 2 ^ LENGTH(32)"
    using lt b d by simp
  then have m: "unat mid = unat first + (unat last' - unat first) div 2"
    using d 3(2) by (simp add: unat_add_lem [THEN iffD1])
  then show ?case using lt by simp
qed

declare commit_pos_loop.simps [simp del]

text \<open>\<^verbatim>\<open>uint32_t first = 0, last = nr_commits\<close>; the array and its length are the list.\<close>

definition commit_pos :: "commit list \<Rightarrow> object_id \<Rightarrow> int \<times> uint32_t" where
  "commit_pos commits x = commit_pos_loop commits x 0 (of_nat (length commits))"

subsection \<open>write_graph_chunk_data\<close>

text \<open>
  The \<^verbatim>\<open>do { num_large_edges++; parent = parent->next; } while (parent)\<close> loop; it is
  entered with a non-null \<open>parent\<close> only.
\<close>

fun count_large_edges :: "object_id list \<Rightarrow> uint32_t \<Rightarrow> uint32_t" where
  "count_large_edges [] num_large_edges = num_large_edges"
| "count_large_edges (p # parent) num_large_edges =
     (if parent \<noteq> [] then count_large_edges parent (num_large_edges + 1)
      else num_large_edges + 1)"

text \<open>One round of \<^verbatim>\<open>while (list < last)\<close>, for the commit \<open>c\<close> = \<^verbatim>\<open>*list\<close>.\<close>

definition write_graph_chunk_data_body ::
  "nat \<Rightarrow> commit list \<Rightarrow> commit \<Rightarrow> sha1file \<times> uint32_t \<Rightarrow> sha1file \<times> uint32_t" where
  "write_graph_chunk_data_body hash_len commits c s =
     (case s of (f, num_large_edges) \<Rightarrow>
        let f = sha1write f (tree c) hash_len;
            parent = parents c;
            int_id = (if parent = [] then GRAPH_PARENT_NONE
                      else (case commit_pos commits (hd parent) of (found, pos) \<Rightarrow>
                              if found = 0 then GRAPH_PARENT_MISSING else pos));
            f = sha1write_be32 f int_id;
            parent = (if parent \<noteq> [] then tl parent else parent);
            int_id = (if parent = [] then GRAPH_PARENT_NONE
                      else if tl parent \<noteq> [] then GRAPH_LARGE_EDGES_NEEDED OR num_large_edges
                      else (case commit_pos commits (hd parent) of (found, pos) \<Rightarrow>
                              if found = 0 then GRAPH_PARENT_MISSING else pos));
            f = sha1write_be32 f int_id;
            num_large_edges = (if parent \<noteq> [] \<and> tl parent \<noteq> []
                               then count_large_edges parent num_large_edges
                               else num_large_edges);
            packedDate = htonl (ucast (drop_bit 32 (date c) AND 0x3)) @ htonl (ucast (date c));
            f = sha1write f packedDate 8
        in (f, num_large_edges))"

fun write_graph_chunk_data_loop ::
  "nat \<Rightarrow> commit list \<Rightarrow> commit list \<Rightarrow> sha1file \<times> uint32_t \<Rightarrow> sha1file \<times> uint32_t" where
  "write_graph_chunk_data_loop hash_len commits [] s = s"
| "write_graph_chunk_data_loop hash_len commits (c # list) s =
     write_graph_chunk_data_loop hash_len commits list
       (write_graph_chunk_data_body hash_len commits c s)"

definition write_graph_chunk_data :: "sha1file \<Rightarrow> nat \<Rightarrow> commit list \<Rightarrow> sha1file" where
  "write_graph_chunk_data f hash_len commits =
     fst (write_graph_chunk_data_loop hash_len commits commits (f, 0))"

subsection \<open>write_graph_chunk_large_edges\<close>

text \<open>
  \<^verbatim>\<open>for (parent = ...; num_parents < 3 && parent; parent = parent->next) num_parents++\<close>
\<close>

fun count_parents_upto_3 :: "object_id list \<Rightarrow> int \<Rightarrow> int" where
  "count_parents_upto_3 [] num_parents = num_parents"
| "count_parents_upto_3 (p # parent) num_parents =
     (if num_parents < 3 then count_parents_upto_3 parent (num_parents + 1)
      else num_parents)"

text \<open>The inner \<^verbatim>\<open>for (parent = (*list)->parents->next; parent; parent = parent->next)\<close>.\<close>

fun large_edges_for :: "commit list \<Rightarrow> sha1file \<Rightarrow> object_id list \<Rightarrow> sha1file" where
  "large_edges_for commits f [] = f"
| "large_edges_for commits f (p # parent) =
     (let last_edge = (if parent = [] then 0 OR GRAPH_LAST_EDGE else 0);
          swap_int_id = (case commit_pos commits p of (found, int_id) \<Rightarrow>
                           if found \<noteq> 0 then htonl (int_id OR last_edge)
                           else htonl (GRAPH_PARENT_MISSING OR last_edge))
      in large_edges_for commits (sha1write f swap_int_id 4) parent)"

fun write_graph_chunk_large_edges_loop :: "commit list \<Rightarrow> commit list \<Rightarrow> sha1file \<Rightarrow> sha1file" where
  "write_graph_chunk_large_edges_loop commits [] f = f"
| "write_graph_chunk_large_edges_loop commits (c # list) f =
     (if count_parents_upto_3 (parents c) 0 \<le> 2
      then write_graph_chunk_large_edges_loop commits list f
      else write_graph_chunk_large_edges_loop commits list
             (large_edges_for commits f (tl (parents c))))"

definition write_graph_chunk_large_edges :: "sha1file \<Rightarrow> commit list \<Rightarrow> sha1file" where
  "write_graph_chunk_large_edges f commits = write_graph_chunk_large_edges_loop commits commits f"

section \<open>write_commit_graph\<close>

definition commit_compare :: "object_id \<Rightarrow> object_id \<Rightarrow> int" where
  "commit_compare a b = oidcmp a b"

definition if_packed_commit_add_to_list ::
  "object_id \<Rightarrow> object_type \<Rightarrow> object_id list \<Rightarrow> object_id list" where
  "if_packed_commit_add_to_list x type list =
     (if type \<noteq> OBJ_COMMIT then list else list @ [x])"

text \<open>
  The second \<^verbatim>\<open>for (i = 0; i < oids.nr; i++)\<close> loop: skips an identifier equal to its
  predecessor, appends the parsed commit of every other one to \<^verbatim>\<open>commits.list\<close> and
  adds up \<^verbatim>\<open>num_long_edges\<close>. (The first loop only computes \<^verbatim>\<open>count_distinct\<close>, the
  capacity allocated for \<^verbatim>\<open>commits.list\<close>.)
\<close>

function build_commits ::
  "(object_id \<Rightarrow> object_id \<times> object_id list \<times> uint64_t) \<Rightarrow> object_id list \<Rightarrow> nat
     \<Rightarrow> commit list \<times> int \<Rightarrow> commit list \<times> int" where
  "build_commits odb oids i s =
     (case s of (commits, num_long_edges) \<Rightarrow>
        if i < length oids then
          (if i > 0 \<and> oidcmp (oids ! (i - 1)) (oids ! i) = 0
           then build_commits odb oids (i + 1) (commits, num_long_edges)
           else
             (let c = lookup_commit odb (oids ! i);
                  num_parents = int (length (parents c));
                  num_long_edges = (if num_parents > 2 then num_long_edges + (num_parents - 1)
                                    else num_long_edges)
              in build_commits odb oids (i + 1) (commits @ [c], num_long_edges)))
        else (commits, num_long_edges))"
  by pat_completeness auto
termination
  by (relation "measure (\<lambda>(odb, oids, i, s). length oids - i)") auto

declare build_commits.simps [simp del]

text \<open>
  \<^verbatim>\<open>for (i = 0; i <= num_chunks; i++)\<close>: one 12-byte \<^verbatim>\<open>chunk_write\<close> per round.
\<close>

function write_chunk_lookup ::
  "sha1file \<Rightarrow> uint32_t list \<Rightarrow> uint64_t list \<Rightarrow> nat \<Rightarrow> nat \<Rightarrow> sha1file" where
  "write_chunk_lookup f chunk_ids chunk_offsets i num_chunks =
     (if i \<le> num_chunks then
        (let chunk_write = htonl (chunk_ids ! i)
                         @ htonl (ucast (drop_bit 32 (chunk_offsets ! i)))
                         @ htonl (ucast (chunk_offsets ! i AND 0xffffffff))
         in write_chunk_lookup (sha1write f chunk_write 12) chunk_ids chunk_offsets (i + 1) num_chunks)
      else f)"
  by pat_completeness auto
termination
  by (relation "measure (\<lambda>(f, ids, offs, i, n). n + 1 - i)") auto

declare write_chunk_lookup.simps [simp del]

text \<open>
  What the run depends on: the packed objects the store enumerates, the object database
  behind \<^verbatim>\<open>lookup_commit\<close>/\<^verbatim>\<open>parse_commit\<close>, the hash of the streaming writer, and the
  outcome of each filesystem call.
\<close>

record env =
  packed_objects :: "(object_id \<times> object_type) list"
  odb :: "object_id \<Rightarrow> object_id \<times> object_id list \<times> uint64_t"
  sha1 :: "byte list \<Rightarrow> byte list"
  opendir_ok :: bool
  mkdir_ok :: bool
  mkstemp_ok :: bool
  rename_ok :: bool

text \<open>
  The identifier collector (line 267) and the commit set builder (lines 269 to 298): the
  table and \<^verbatim>\<open>num_long_edges\<close> from the collected identifiers.
\<close>

definition collect_oids :: "env \<Rightarrow> object_id list" where
  "collect_oids e = for_each_packed_object if_packed_commit_add_to_list [] (packed_objects e)"

definition commit_table ::
  "(object_id \<Rightarrow> object_id \<times> object_id list \<times> uint64_t) \<Rightarrow> object_id list \<Rightarrow> commit list \<times> int" where
  "commit_table db oids = build_commits db (QSORT oids commit_compare) 0 ([], 0)"

text \<open>
  The value a 32-bit \<^verbatim>\<open>int\<close> holds for the arithmetic result \<open>x\<close>: \<open>x\<close> itself when it
  fits, and its two's-complement wrap-around otherwise (what the compiled code computes
  where C leaves signed overflow undefined).
\<close>

definition int32 :: "int \<Rightarrow> int" where
  "int32 x = (x + 2 ^ 31) mod 2 ^ 32 - 2 ^ 31"

text \<open>
  The precomputed \<^verbatim>\<open>chunk_offsets[0..4]\<close>; \<open>nr\<close> is \<^verbatim>\<open>commits.nr\<close>. Each product is
  computed in \<^verbatim>\<open>int\<close>, hence \<open>int32\<close>, and converted to \<^verbatim>\<open>uint64_t\<close> by the addition
  (\<open>of_int\<close>, which reduces modulo \<open>2^64\<close> as the conversion does). The counts
  \<^verbatim>\<open>commits.nr\<close>, \<^verbatim>\<open>num_long_edges\<close> and \<^verbatim>\<open>num_parents\<close> themselves are integers here:
  they follow the source as long as they stay within 32 bits.
\<close>

definition chunk_offsets_of :: "int \<Rightarrow> int \<Rightarrow> uint64_t list" where
  "chunk_offsets_of nr num_long_edges =
     (let o0 = of_int (int32 (8 + GRAPH_CHUNKLOOKUP_SIZE));
          o1 = o0 + of_int GRAPH_FANOUT_SIZE;
          o2 = o1 + of_int (int32 (int GRAPH_OID_LEN * nr));
          o3 = o2 + of_int (int32 ((int GRAPH_OID_LEN + 16) * nr));
          o4 = o3 + of_int (int32 (4 * num_long_edges))
      in [o0, o1, o2, o3, o4])"

definition chunk_ids_of :: "int \<Rightarrow> uint32_t list" where
  "chunk_ids_of num_long_edges =
     [GRAPH_CHUNKID_OIDFANOUT, GRAPH_CHUNKID_OIDLOOKUP, GRAPH_CHUNKID_DATA,
      (if num_long_edges \<noteq> 0 then GRAPH_CHUNKID_LARGEEDGES else 0), 0]"

text \<open>
  Everything written through \<open>f\<close> before \<^verbatim>\<open>sha1close\<close>: header, chunk lookup table and
  the four chunk writers, in the order of the source.
\<close>

definition graph_body :: "commit list \<Rightarrow> int \<Rightarrow> sha1file" where
  "graph_body commits num_long_edges =
     (let num_chunks = (if num_long_edges \<noteq> 0 then 4 else 3 :: nat);
          f = sha1write_be32 [] GRAPH_SIGNATURE;
          f = sha1write_u8 f GRAPH_VERSION;
          f = sha1write_u8 f GRAPH_OID_VERSION;
          f = sha1write_u8 f (of_nat num_chunks);
          f = sha1write_u8 f 0;
          chunk_ids = chunk_ids_of num_long_edges;
          chunk_offsets = chunk_offsets_of (int (length commits)) num_long_edges;
          f = write_chunk_lookup f chunk_ids chunk_offsets 0 num_chunks;
          f = write_graph_chunk_fanout f commits;
          f = write_graph_chunk_oids f GRAPH_OID_LEN commits;
          f = write_graph_chunk_data f GRAPH_OID_LEN commits;
          f = write_graph_chunk_large_edges f commits
      in f)"

text \<open>
  The result is the returned \<^verbatim>\<open>graph_name\<close> and the bytes of the file renamed to
  \<^verbatim>\<open><obj_dir>/info/<graph_name>\<close>, or the \<^verbatim>\<open>die\<close> that ended the run.
\<close>

definition write_commit_graph :: "string \<Rightarrow> env \<Rightarrow> error + (string \<times> byte list)" where
  "write_commit_graph obj_dir e =
     (case commit_table (odb e) (collect_oids e) of (commits, num_long_edges) \<Rightarrow>
        if \<not> opendir_ok e \<and> \<not> mkdir_ok e then Inl Cannot_mkdir
        else if \<not> mkstemp_ok e then Inl Unable_to_create
        else
          (case sha1close (sha1 e) (graph_body commits num_long_edges) of
             (file, final_hash) \<Rightarrow>
               let graph_name = ''graph-'' @ sha1_to_hex final_hash @ ''.graph''
               in if \<not> rename_ok e then Inl Failed_to_rename
                  else Inr (graph_name, file)))"

section \<open>Specification-side notions\<close>

text \<open>Small concrete inputs: a 20-byte identifier from its first byte, a commit from parts.\<close>

definition example_oid :: "byte \<Rightarrow> object_id" where
  "example_oid b = b # replicate 19 0"

definition example_commit :: "byte \<Rightarrow> byte list \<Rightarrow> uint64_t \<Rightarrow> commit" where
  "example_commit b ps d =
     \<lparr>oid = example_oid b, tree = example_oid (b + 100), parents = map example_oid ps, date = d\<rparr>"

text \<open>Strictly increasing by identifier, in terms of the comparison the code uses.\<close>

definition table_sorted :: "commit list \<Rightarrow> bool" where
  "table_sorted commits = sorted_wrt (\<lambda>a b. oidcmp (oid a) (oid b) < 0) commits"

text \<open>The number of table identifiers whose first byte is at most \<open>b\<close>.\<close>

definition fanout_count :: "commit list \<Rightarrow> nat \<Rightarrow> nat" where
  "fanout_count commits b = length (filter (\<lambda>c. unat (oid c ! 0) \<le> b) commits)"

text \<open>
  The overflow entries a commit needs (its parents after the first, when it has more
  than two), and their number over a list of commits.
\<close>

definition commit_overflow :: "commit \<Rightarrow> nat" where
  "commit_overflow c = (if length (parents c) > 2 then length (parents c) - 1 else 0)"

definition overflow_entries :: "commit list \<Rightarrow> nat" where
  "overflow_entries list = sum_list (map commit_overflow list)"

text \<open>The slots of one DATA record, as the body of the loop computes them.\<close>

definition parent0_slot :: "commit list \<Rightarrow> commit \<Rightarrow> uint32_t" where
  "parent0_slot commits c =
     (if parents c = [] then GRAPH_PARENT_NONE
      else (case commit_pos commits (hd (parents c)) of (found, pos) \<Rightarrow>
              if found = 0 then GRAPH_PARENT_MISSING else pos))"

definition parent1_slot :: "commit list \<Rightarrow> commit \<Rightarrow> uint32_t \<Rightarrow> uint32_t" where
  "parent1_slot commits c n =
     (if length (parents c) \<le> 1 then GRAPH_PARENT_NONE
      else if length (parents c) > 2 then GRAPH_LARGE_EDGES_NEEDED OR n
      else (case commit_pos commits (parents c ! 1) of (found, pos) \<Rightarrow>
              if found = 0 then GRAPH_PARENT_MISSING else pos))"

definition data_record_of :: "nat \<Rightarrow> commit list \<Rightarrow> commit \<Rightarrow> uint32_t \<Rightarrow> byte list" where
  "data_record_of hash_len commits c n =
     take hash_len (tree c) @ htonl (parent0_slot commits c) @ htonl (parent1_slot commits c n)
       @ htonl (ucast (drop_bit 32 (date c) AND 0x3)) @ htonl (ucast (date c))"

text \<open>
  One OVERFLOW_EDGES entry as the inner loop computes it, the run of entries of a parent
  list, and the bytes a commit contributes to the chunk.
\<close>

definition edge_entry :: "commit list \<Rightarrow> object_id \<Rightarrow> bool \<Rightarrow> uint32_t" where
  "edge_entry commits p is_last =
     (let last_edge = (if is_last then GRAPH_LAST_EDGE else 0)
      in case commit_pos commits p of (found, int_id) \<Rightarrow>
           if found \<noteq> 0 then int_id OR last_edge else GRAPH_PARENT_MISSING OR last_edge)"

fun edge_run :: "commit list \<Rightarrow> object_id list \<Rightarrow> byte list" where
  "edge_run commits [] = []"
| "edge_run commits (p # ps) = htonl (edge_entry commits p (ps = [])) @ edge_run commits ps"

definition commit_edges :: "commit list \<Rightarrow> commit \<Rightarrow> byte list" where
  "commit_edges commits c =
     (if length (parents c) > 2 then edge_run commits (tl (parents c)) else [])"

text \<open>
  The identifiers the second loop of the commit set builder keeps from index \<open>i\<close> on:
  those that differ from their predecessor.
\<close>

definition kept_oids :: "object_id list \<Rightarrow> nat \<Rightarrow> object_id list" where
  "kept_oids oids i =
     map (\<lambda>j. oids ! j)
       (filter (\<lambda>j. \<not> (j > 0 \<and> oids ! (j - 1) = oids ! j)) [i..<length oids])"

definition long_edges_of :: "commit list \<Rightarrow> int" where
  "long_edges_of list =
     (\<Sum>c\<leftarrow>list. if int (length (parents c)) > 2 then int (length (parents c)) - 1 else 0)"

text \<open>A lookup-table offset on disk: the high word, then the low word, both big-endian.\<close>

definition be64 :: "uint64_t \<Rightarrow> byte list" where
  "be64 x = htonl (ucast (drop_bit 32 x)) @ htonl (ucast (x AND 0xffffffff))"

section \<open>commit_pos: the binary search\<close>

lemma oidcmp_less: "oidcmp a b < 0 \<longleftrightarrow> a < b"
  by (induction a b rule: oidcmp.induct) (auto simp: word_less_def)

lemma oidcmp_eq: "oidcmp a b = 0 \<longleftrightarrow> a = b"
  by (induction a b rule: oidcmp.induct) (auto simp: word_uint_eq_iff)

lemma oidcmp_greater: "oidcmp a b > 0 \<longleftrightarrow> b < a"
  by (induction a b rule: oidcmp.induct) (auto simp: word_less_def)

lemma table_sorted_nth:
  "table_sorted commits \<Longrightarrow> i < j \<Longrightarrow> j < length commits \<Longrightarrow> oid (commits ! i) < oid (commits ! j)"
  by (simp add: table_sorted_def sorted_wrt_iff_nth_less oidcmp_less)

lemma mid_bounds:
  fixes first last' :: uint32_t
  assumes "first < last'"
  shows "unat (first + (last' - first) div 2) = unat first + (unat last' - unat first) div 2"
proof -
  have lt: "unat first < unat last'" using assms by (simp add: word_less_nat_alt)
  have d: "unat ((last' - first) div 2) = (unat last' - unat first) div 2"
    using assms by (simp add: unat_div unat_sub)
  have b: "unat last' < 2 ^ 32" using unsigned_less [of last'] by simp
  have "unat first + unat ((last' - first) div 2) < 2 ^ LENGTH(32)"
    using lt b d by simp
  then show ?thesis using d by (simp add: unat_add_lem [THEN iffD1])
qed

lemma mid_succ:
  fixes first last' :: uint32_t
  assumes "first < last'"
  shows "unat (first + (last' - first) div 2 + 1) = unat first + (unat last' - unat first) div 2 + 1"
proof -
  have lt: "unat first < unat last'" using assms by (simp add: word_less_nat_alt)
  have b: "unat last' < 2 ^ 32" using unsigned_less [of last'] by simp
  have "unat (first + (last' - first) div 2) + unat (1 :: uint32_t) < 2 ^ LENGTH(32)"
    using lt b by (simp add: mid_bounds [OF assms])
  then have "unat (first + (last' - first) div 2 + 1)
      = unat (first + (last' - first) div 2) + unat (1 :: uint32_t)"
    by (simp only: unat_add_lem [THEN iffD1])
  then show ?thesis by (simp add: mid_bounds [OF assms])
qed

text \<open>The loop ends on every input, sorted or not: \<open>last' - first\<close> decreases.\<close>

lemma commit_pos_loop_total: "commit_pos_loop_dom (commits, x, first, last')"
proof (induction "unat last' - unat first" arbitrary: first last' rule: less_induct)
  case less
  show ?case
  proof (rule accp.intros)
    fix y assume r: "commit_pos_loop_rel y (commits, x, first, last')"
    show "commit_pos_loop_dom y"
    proof (rule commit_pos_loop_rel.cases [OF r], goal_cases)
      case (1 commits' x' first' last'' mid cmp)
      then have lt: "first < last'" and mid: "mid = first + (last' - first) div 2"
        and y: "y = (commits, x, mid + 1, last')" by simp_all
      have "unat last' - unat (mid + 1) < unat last' - unat first"
        using mid_succ [OF lt] lt by (simp add: mid word_less_nat_alt)
      then show ?case unfolding y by (rule less)
    next
      case (2 commits' x' first' last'' mid cmp)
      then have lt: "first < last'" and mid: "mid = first + (last' - first) div 2"
        and y: "y = (commits, x, first, mid)" by simp_all
      have "unat mid - unat first < unat last' - unat first"
        using mid_bounds [OF lt] lt by (simp add: mid word_less_nat_alt)
      then show ?case unfolding y by (rule less)
    qed
  qed
qed

text \<open>
  The loop invariant: everything below \<open>first\<close> is smaller than the key and everything
  from \<open>last'\<close> on is larger.
\<close>

lemma commit_pos_loop_correct:
  assumes "table_sorted commits"
    and "unat last' \<le> length commits"
    and "\<forall>j < unat first. oid (commits ! j) < x"
    and "\<forall>j. unat last' \<le> j \<and> j < length commits \<longrightarrow> x < oid (commits ! j)"
  shows "(\<exists>p. commit_pos_loop commits x first last' = (1, p) \<and> unat p < length commits
              \<and> oid (commits ! unat p) = x)
       \<or> (fst (commit_pos_loop commits x first last') = 0
              \<and> (\<forall>j < length commits. oid (commits ! j) \<noteq> x))"
  using assms
proof (induction commits x first last' rule: commit_pos_loop.induct)
  case (1 commits x first last')
  show ?case
  proof (cases "first < last'")
    case False
    then have "unat last' \<le> unat first" by (simp add: word_less_nat_alt)
    then have "\<forall>j < length commits. oid (commits ! j) \<noteq> x"
      using "1.prems"(3,4) by (metis linorder_not_less order_less_irrefl order_trans)
    then show ?thesis using False by (subst commit_pos_loop.simps) simp
  next
    case True
    define mid where "mid = first + (last' - first) div 2"
    have um: "unat mid = unat first + (unat last' - unat first) div 2"
      unfolding mid_def by (rule mid_bounds [OF True])
    have lt: "unat first < unat last'" using True by (simp add: word_less_nat_alt)
    have ml: "unat mid < unat last'" using um lt by simp
    then have mN: "unat mid < length commits" using "1.prems"(2) by simp
    consider (eq) "oidcmp x (oid (commits ! unat mid)) = 0"
      | (gt) "oidcmp x (oid (commits ! unat mid)) > 0"
      | (lt) "oidcmp x (oid (commits ! unat mid)) < 0" by linarith
    then show ?thesis
    proof cases
      case eq
      then have "oid (commits ! unat mid) = x" by (simp add: oidcmp_eq)
      moreover have "commit_pos_loop commits x first last' = (1, mid)"
        using True eq by (subst commit_pos_loop.simps) (simp add: mid_def Let_def)
      ultimately show ?thesis using mN by blast
    next
      case gt
      then have g: "oid (commits ! unat mid) < x" by (simp add: oidcmp_greater)
      have um1: "unat (mid + 1) = unat mid + 1"
        using mid_succ [OF True] um by (simp add: mid_def)
      have below: "\<forall>j < unat (mid + 1). oid (commits ! j) < x"
      proof (intro allI impI)
        fix j assume "j < unat (mid + 1)"
        then have "j \<le> unat mid" using um1 by simp
        then show "oid (commits ! j) < x"
          using g table_sorted_nth [OF "1.prems"(1), of j "unat mid"] mN
          by (cases "j = unat mid") (auto intro: less_trans)
      qed
      have rec: "commit_pos_loop commits x first last' = commit_pos_loop commits x (mid + 1) last'"
        using True gt by (subst commit_pos_loop.simps) (simp add: mid_def Let_def)
      have ne: "oidcmp x (oid (commits ! unat mid)) \<noteq> 0" using gt by simp
      show ?thesis
        unfolding rec
        using "1.IH"(1) [OF True mid_def refl ne gt "1.prems"(1) "1.prems"(2) below "1.prems"(4)] .
    next
      case lt
      then have l: "x < oid (commits ! unat mid)" by (simp add: oidcmp_less)
      have above: "\<forall>j. unat mid \<le> j \<and> j < length commits \<longrightarrow> x < oid (commits ! j)"
      proof (intro allI impI)
        fix j assume "unat mid \<le> j \<and> j < length commits"
        then show "x < oid (commits ! j)"
          using l table_sorted_nth [OF "1.prems"(1), of "unat mid" j]
          by (cases "j = unat mid") (auto intro: less_trans)
      qed
      have rec: "commit_pos_loop commits x first last' = commit_pos_loop commits x first mid"
        using True lt by (subst commit_pos_loop.simps) (simp add: mid_def Let_def)
      have ne: "oidcmp x (oid (commits ! unat mid)) \<noteq> 0" using lt by simp
      have ngt: "\<not> oidcmp x (oid (commits ! unat mid)) > 0" using lt by simp
      have mle: "unat mid \<le> length commits" using mN by simp
      show ?thesis
        unfolding rec
        using "1.IH"(2) [OF True mid_def refl ne ngt "1.prems"(1) mle "1.prems"(3) above] .
    qed
  qed
qed

lemma table_sorted_unique:
  assumes "table_sorted commits" and "i < length commits" and "j < length commits"
    and "oid (commits ! i) = oid (commits ! j)"
  shows "i = j"
proof (rule ccontr)
  assume "i \<noteq> j"
  then consider "i < j" | "j < i" by linarith
  then show False
    using table_sorted_nth [OF assms(1), of i j] table_sorted_nth [OF assms(1), of j i] assms(2-4)
    by cases auto
qed

lemma commit_pos_cases:
  assumes "table_sorted commits" and "length commits < 2 ^ 31"
  shows "(\<exists>p. commit_pos commits x = (1, p) \<and> unat p < length commits
              \<and> oid (commits ! unat p) = x)
       \<or> (fst (commit_pos commits x) = 0 \<and> (\<forall>j < length commits. oid (commits ! j) \<noteq> x))"
proof -
  have len: "unat (of_nat (length commits) :: uint32_t) = length commits"
    using assms(2) by (simp add: unat_of_nat)
  show ?thesis
    unfolding commit_pos_def
    by (rule commit_pos_loop_correct [OF assms(1)]) (auto simp: len)
qed

lemma commit_pos_found:
  assumes "table_sorted commits" and "length commits < 2 ^ 31"
    and "i < length commits" and "oid (commits ! i) = x"
  shows "commit_pos commits x = (1, of_nat i)"
proof -
  from commit_pos_cases [OF assms(1,2), of x] assms(3,4)
  obtain p where p: "commit_pos commits x = (1, p)"
    "unat p < length commits" "oid (commits ! unat p) = x" by blast
  have "unat p = i"
    using table_sorted_unique [OF assms(1) p(2) assms(3)] p(3) assms(4) by simp
  moreover have "of_nat (unat p) = p" by simp
  ultimately have "of_nat i = p" by (simp only:)
  then show ?thesis using p(1) by simp
qed

lemma commit_pos_missing:
  assumes "table_sorted commits" and "length commits < 2 ^ 31"
    and "\<forall>i < length commits. oid (commits ! i) \<noteq> x"
  shows "fst (commit_pos commits x) = 0"
  using commit_pos_cases [OF assms(1,2), of x] assms(3) by auto

text \<open>
  C10. On a table that is strictly increasing by identifier (of a length an \<^verbatim>\<open>int\<close>
  holds), \<open>commit_pos\<close> returns 1 and stores the index of the commit with the queried
  identifier when there is one, and that index is the only one; it returns 0 when there
  is none. The loop terminates on every input: every argument is in the domain on which
  the recursion is well-founded.
\<close>

theorem commit_pos_binary_search:
  assumes "table_sorted commits" and "length commits < 2 ^ 31"
  shows "(\<forall>i < length commits. oid (commits ! i) = x \<longrightarrow>
            commit_pos commits x = (1, of_nat i)
            \<and> (\<forall>j < length commits. oid (commits ! j) = x \<longrightarrow> j = i))
       \<and> ((\<forall>i < length commits. oid (commits ! i) \<noteq> x) \<longrightarrow> fst (commit_pos commits x) = 0)
       \<and> (\<forall>cs y first last'. commit_pos_loop_dom (cs, y, first, last'))"
proof -
  have "j = i" if "i < length commits" "j < length commits"
    "oid (commits ! i) = x" "oid (commits ! j) = x" for i j
    using table_sorted_unique [OF assms(1) that(2,1)] that(3,4) by simp
  then show ?thesis
    using commit_pos_found [OF assms] commit_pos_missing [OF assms] commit_pos_loop_total
    by blast
qed

theorem commit_pos_binary_search_witness:
  "table_sorted [example_commit 1 [] 0, example_commit 5 [] 0, example_commit 9 [] 0]
   \<and> commit_pos [example_commit 1 [] 0, example_commit 5 [] 0, example_commit 9 [] 0]
        (example_oid 5) = (1, 1)
   \<and> fst (commit_pos [example_commit 1 [] 0, example_commit 5 [] 0, example_commit 9 [] 0]
        (example_oid 7)) = 0"
proof -
  let ?T = "[example_commit 1 [] 0, example_commit 5 [] 0, example_commit 9 [] 0]"
  have s: "table_sorted ?T"
    by (simp add: table_sorted_def example_commit_def example_oid_def)
  have l: "length ?T < 2 ^ 31" by simp
  have a: "commit_pos ?T (example_oid 5) = (1, 1)"
    using commit_pos_binary_search [OF s l, THEN conjunct1, rule_format, of 1 "example_oid 5"]
    by (simp add: example_commit_def)
  have "\<forall>i < length ?T. oid (?T ! i) \<noteq> example_oid 7"
    by (simp add: example_commit_def example_oid_def All_less_Suc)
  then have b: "fst (commit_pos ?T (example_oid 7)) = 0"
    using commit_pos_binary_search [OF s l, THEN conjunct2, THEN conjunct1, rule_format,
        of "example_oid 7"]
    by blast
  show ?thesis using s a b by simp
qed

section \<open>The FANOUT chunk\<close>

lemma fanout_while_eq:
  "fanout_while list i count =
     (dropWhile (\<lambda>c. unat (oid c ! 0) = i) list,
      count + of_nat (length (takeWhile (\<lambda>c. unat (oid c ! 0) = i) list)))"
  by (induction list arbitrary: count) auto

lemma sorted_keys_split:
  assumes "sorted (map k xs)" and "\<forall>x \<in> set xs. (i::nat) \<le> k x"
  shows "takeWhile (\<lambda>x. k x = i) xs = filter (\<lambda>x. k x = i) xs
       \<and> dropWhile (\<lambda>x. k x = i) xs = filter (\<lambda>x. Suc i \<le> k x) xs"
  using assms
proof (induction xs)
  case Nil
  then show ?case by simp
next
  case (Cons x xs)
  show ?case
  proof (cases "k x = i")
    case True
    then show ?thesis using Cons by auto
  next
    case False
    then have "i < k x" using Cons.prems(2) by (simp add: le_neq_implies_less)
    moreover have "\<forall>y \<in> set xs. k x \<le> k y" using Cons.prems(1) by simp
    ultimately have "\<forall>y \<in> set xs. Suc i \<le> k y \<and> k y \<noteq> i" by fastforce
    then have "filter (\<lambda>x. k x = i) xs = [] \<and> filter (\<lambda>x. Suc i \<le> k x) xs = xs"
      by (simp add: filter_empty_conv filter_id_conv)
    then show ?thesis using False \<open>i < k x\<close> by simp
  qed
qed

lemma length_filter_less_Suc:
  "length (filter (\<lambda>x. k x < Suc i) xs)
     = length (filter (\<lambda>x. k x < i) xs) + length (filter (\<lambda>x. k x = (i::nat)) xs)"
  by (induction xs) auto

lemma fanout_for_sorted:
  assumes "sorted (map (\<lambda>c. unat (oid c ! 0)) commits)"
    and "list = filter (\<lambda>c. i \<le> unat (oid c ! 0)) commits"
    and "count = of_nat (length (filter (\<lambda>c. unat (oid c ! 0) < i) commits))"
  shows "fanout_for f list i count
       = f @ concat (map (\<lambda>b. htonl (of_nat (fanout_count commits b))) [i..<256])"
  using assms
proof (induction f list i count rule: fanout_for.induct)
  case (1 f list i count)
  let ?k = "\<lambda>c. unat (oid c ! 0)"
  show ?case
  proof (cases "i < 256")
    case False
    then show ?thesis by (subst fanout_for.simps) simp
  next
    case True
    have srt: "sorted (map ?k list)" unfolding "1.prems"(2) using "1.prems"(1) by (rule sorted_filter)
    have ge: "\<forall>x \<in> set list. i \<le> ?k x" unfolding "1.prems"(2) by simp
    note sp = sorted_keys_split [OF srt ge]
    have eqi: "filter (\<lambda>c. ?k c = i) list = filter (\<lambda>c. ?k c = i) commits"
      unfolding "1.prems"(2) by (auto intro: filter_cong)
    have gti: "filter (\<lambda>c. Suc i \<le> ?k c) list = filter (\<lambda>c. Suc i \<le> ?k c) commits"
      unfolding "1.prems"(2) by (auto intro: filter_cong)
    define list' where "list' = filter (\<lambda>c. i + 1 \<le> ?k c) commits"
    define count' where "count' = (of_nat (fanout_count commits i) :: uint32_t)"
    have cnt: "fanout_count commits i
        = length (filter (\<lambda>c. ?k c < i) commits) + length (filter (\<lambda>c. ?k c = i) commits)"
      unfolding fanout_count_def by (simp flip: length_filter_less_Suc add: less_Suc_eq_le)
    have fw: "fanout_while list i count = (list', count')"
      unfolding fanout_while_eq list'_def count'_def cnt "1.prems"(3)
      using sp eqi gti by simp
    have cnt': "count' = of_nat (length (filter (\<lambda>c. ?k c < i + 1) commits))"
      unfolding count'_def fanout_count_def by (simp add: less_Suc_eq_le)
    have step: "fanout_for f list i count = fanout_for (sha1write_be32 f count') list' (i + 1) count'"
      using True fw by (subst fanout_for.simps) simp
    have ih: "fanout_for (sha1write_be32 f count') list' (i + 1) count'
        = sha1write_be32 f count' @ concat (map (\<lambda>b. htonl (of_nat (fanout_count commits b))) [i + 1..<256])"
      by (rule "1.IH" [OF True fw [symmetric] "1.prems"(1) list'_def cnt'])
    have "[i..<256] = i # [i + 1..<256]" using True by (simp add: upt_conv_Cons)
    then show ?thesis
      unfolding step ih by (simp add: sha1write_be32_def sha1write_def htonl_def count'_def)
  qed
qed


lemma sorted_first_bytes:
  assumes "sorted_wrt (\<lambda>a b. oidcmp (oid a) (oid b) \<le> 0) commits"
    and "\<forall>c \<in> set commits. length (oid c) = 20"
  shows "sorted (map (\<lambda>c. unat (oid c ! 0)) commits)"
proof -
  have "unat (oid a ! 0) \<le> unat (oid b ! 0)"
    if "a \<in> set commits" "b \<in> set commits" "oidcmp (oid a) (oid b) \<le> 0" for a b
  proof -
    have "length (oid a) = 20" "length (oid b) = 20" using assms(2) that(1,2) by blast+
    then obtain x xs y ys where a: "oid a = x # xs" and b: "oid b = y # ys"
      by (cases "oid a"; cases "oid b") auto
    have "x \<le> y" using that(3) unfolding a b by (auto simp: word_le_def split: if_splits)
    then show ?thesis by (simp add: a b word_le_nat_alt)
  qed
  then have imp: "\<And>a b. a \<in> set commits \<Longrightarrow> b \<in> set commits \<Longrightarrow>
      oidcmp (oid a) (oid b) \<le> 0 \<Longrightarrow> unat (oid a ! 0) \<le> unat (oid b ! 0)" .
  have "sorted_wrt (\<lambda>a b. unat (oid a ! 0) \<le> unat (oid b ! 0)) commits"
    by (rule sorted_wrt_mono_rel [OF imp assms(1)])
  then show ?thesis by (simp add: sorted_map)
qed

lemma fanout_count_le_length: "fanout_count commits b \<le> length commits"
  by (simp add: fanout_count_def)

lemma fanout_count_mono: "b \<le> c \<Longrightarrow> fanout_count commits b \<le> fanout_count commits c"
  unfolding fanout_count_def by (induction commits) auto

lemma fanout_count_255: "fanout_count commits 255 = length commits"
proof -
  have "unat (oid c ! 0) \<le> 255" for c :: commit
  proof -
    have "unat (oid c ! 0) < 2 ^ 8" using unsigned_less [of "oid c ! 0"] by simp
    then show ?thesis by simp
  qed
  then show ?thesis by (simp add: fanout_count_def)
qed

text \<open>
  C6. For a table of \<open>N\<close> commits sorted by identifier (strictly or not) the FANOUT
  chunk is 256 big-endian 32-bit values, entry \<open>b\<close> being the number of table
  identifiers whose first byte is at most \<open>b\<close>; the entries are non-decreasing and entry
  255 is \<open>N\<close>.
\<close>

theorem fanout_chunk:
  assumes "sorted_wrt (\<lambda>a b. oidcmp (oid a) (oid b) \<le> 0) commits"
    and "\<forall>c \<in> set commits. length (oid c) = 20"
    and "length commits < 2 ^ 31"
  shows "write_graph_chunk_fanout f commits
           = f @ concat (map (\<lambda>b. htonl (of_nat (fanout_count commits b))) [0..<256])
       \<and> (\<forall>b c. b \<le> c \<longrightarrow>
             (of_nat (fanout_count commits b) :: uint32_t) \<le> of_nat (fanout_count commits c))
       \<and> (of_nat (fanout_count commits 255) :: uint32_t) = of_nat (length commits)
       \<and> (\<forall>b. unat (of_nat (fanout_count commits b) :: uint32_t) = fanout_count commits b)"
proof -
  have u: "unat (of_nat (fanout_count commits b) :: uint32_t) = fanout_count commits b" for b
    using fanout_count_le_length [of commits b] assms(3) by (simp add: unat_of_nat)
  have "write_graph_chunk_fanout f commits
           = f @ concat (map (\<lambda>b. htonl (of_nat (fanout_count commits b))) [0..<256])"
    unfolding write_graph_chunk_fanout_def
    by (rule fanout_for_sorted [OF sorted_first_bytes [OF assms(1,2)]]) simp_all
  moreover have "(of_nat (fanout_count commits b) :: uint32_t) \<le> of_nat (fanout_count commits c)"
    if "b \<le> c" for b c
    using fanout_count_mono [OF that, of commits] by (simp add: word_le_nat_alt u)
  ultimately show ?thesis using u by (simp add: fanout_count_255)
qed

theorem fanout_chunk_witness:
  "write_graph_chunk_fanout [] [example_commit 1 [] 0, example_commit 5 [] 0, example_commit 9 [] 0]
     = [] @ concat (map (\<lambda>b. htonl (of_nat
         (fanout_count [example_commit 1 [] 0, example_commit 5 [] 0, example_commit 9 [] 0] b)))
         [0..<256])
   \<and> fanout_count [example_commit 1 [] 0, example_commit 5 [] 0, example_commit 9 [] 0] 4 = 1
   \<and> fanout_count [example_commit 1 [] 0, example_commit 5 [] 0, example_commit 9 [] 0] 5 = 2"
proof -
  let ?T = "[example_commit 1 [] 0, example_commit 5 [] 0, example_commit 9 [] 0]"
  have s: "sorted_wrt (\<lambda>a b. oidcmp (oid a) (oid b) \<le> 0) ?T"
    by (simp add: example_commit_def example_oid_def)
  have w: "\<forall>c \<in> set ?T. length (oid c) = 20"
    by (simp add: example_commit_def example_oid_def)
  have l: "length ?T < 2 ^ 31" by simp
  have c: "fanout_count ?T 4 = 1" "fanout_count ?T 5 = 2"
    by (simp_all add: fanout_count_def example_commit_def example_oid_def)
  show ?thesis
    using fanout_chunk [OF s w l, of "[]", THEN conjunct1] c
    by blast
qed

section \<open>The DATA chunk\<close>

lemma length_htonl [simp]: "length (htonl x) = 4"
  by (simp add: htonl_def)

lemma count_large_edges_eq: "count_large_edges ps n = n + of_nat (length ps)"
  by (induction ps arbitrary: n) auto

lemma overflow_entries_simps [simp]:
  "overflow_entries [] = 0"
  "overflow_entries (c # list) = commit_overflow c + overflow_entries list"
  "overflow_entries (xs @ ys) = overflow_entries xs + overflow_entries ys"
  by (simp_all add: overflow_entries_def)

lemma data_body_eq:
  "write_graph_chunk_data_body hash_len commits c (f, n) =
     (f @ take hash_len (tree c) @ htonl (parent0_slot commits c) @ htonl (parent1_slot commits c n)
        @ htonl (ucast (drop_bit 32 (date c) AND 0x3)) @ htonl (ucast (date c)),
      n + of_nat (commit_overflow c))"
proof (cases "parents c")
  case Nil
  then show ?thesis
    by (simp add: write_graph_chunk_data_body_def Let_def sha1write_def sha1write_be32_def
        parent0_slot_def parent1_slot_def commit_overflow_def)
next
  case (Cons p ps)
  note c1 = this
  show ?thesis
  proof (cases ps)
    case Nil
    then show ?thesis using c1
      by (simp add: write_graph_chunk_data_body_def Let_def sha1write_def sha1write_be32_def
          parent0_slot_def parent1_slot_def commit_overflow_def)
  next
    case (Cons q qs)
    then show ?thesis using c1
      by (cases qs)
         (simp_all add: write_graph_chunk_data_body_def Let_def sha1write_def sha1write_be32_def
          parent0_slot_def parent1_slot_def count_large_edges_eq commit_overflow_def)
  qed
qed


lemma length_data_record_of:
  "length (tree c) = 20 \<Longrightarrow> length (data_record_of 20 commits c n) = 36"
  by (simp add: data_record_of_def)

lemma data_body_record:
  "write_graph_chunk_data_body hash_len commits c (f, n) =
     (f @ data_record_of hash_len commits c n, n + of_nat (commit_overflow c))"
  by (simp add: data_body_eq data_record_of_def)

lemma data_loop_append:
  "write_graph_chunk_data_loop hash_len commits (xs @ ys) s =
     write_graph_chunk_data_loop hash_len commits ys
       (write_graph_chunk_data_loop hash_len commits xs s)"
  by (induction xs arbitrary: s) auto

lemma data_loop_shape:
  assumes "\<forall>c \<in> set xs. length (tree c) = 20"
  shows "\<exists>bs. write_graph_chunk_data_loop 20 commits xs (f, n)
            = (f @ bs, n + of_nat (overflow_entries xs)) \<and> length bs = 36 * length xs"
  using assms
proof (induction xs arbitrary: f n)
  case Nil
  then show ?case by simp
next
  case (Cons c xs)
  from Cons.prems have t: "length (tree c) = 20" and r: "\<forall>c \<in> set xs. length (tree c) = 20"
    by simp_all
  from Cons.IH [OF r, of "f @ data_record_of 20 commits c n" "n + of_nat (commit_overflow c)"]
  obtain bs where bs: "write_graph_chunk_data_loop 20 commits xs
        (f @ data_record_of 20 commits c n, n + of_nat (commit_overflow c))
      = ((f @ data_record_of 20 commits c n) @ bs,
         n + of_nat (commit_overflow c) + of_nat (overflow_entries xs))"
    and len: "length bs = 36 * length xs" by blast
  have "write_graph_chunk_data_loop 20 commits (c # xs) (f, n)
      = (f @ (data_record_of 20 commits c n @ bs), n + of_nat (overflow_entries (c # xs)))"
    by (simp add: data_body_record bs add.assoc)
  moreover have "length (data_record_of 20 commits c n @ bs) = 36 * length (c # xs)"
    using len length_data_record_of [OF t] by simp
  ultimately show ?case by blast
qed

lemma data_record_at:
  assumes "\<forall>c \<in> set commits. length (tree c) = 20" and "i < length commits"
  shows "take 36 (drop (length f + 36 * i) (write_graph_chunk_data f 20 commits))
       = data_record_of 20 commits (commits ! i) (of_nat (overflow_entries (take i commits)))"
proof -
  let ?pre = "take i commits" and ?post = "drop (Suc i) commits" and ?c = "commits ! i"
  have split: "commits = ?pre @ [?c] @ ?post"
    using assms(2) by (simp add: id_take_nth_drop)
  have wpre: "\<forall>c \<in> set ?pre. length (tree c) = 20"
    using assms(1) by (meson in_set_takeD)
  have wpost: "\<forall>c \<in> set ?post. length (tree c) = 20"
    using assms(1) by (meson in_set_dropD)
  obtain b1 where b1: "write_graph_chunk_data_loop 20 commits ?pre (f, 0)
      = (f @ b1, 0 + of_nat (overflow_entries ?pre))" and l1: "length b1 = 36 * length ?pre"
    using data_loop_shape [OF wpre] by blast
  let ?n = "of_nat (overflow_entries ?pre) :: uint32_t"
  let ?r = "data_record_of 20 commits ?c ?n"
  obtain b2 where b2: "write_graph_chunk_data_loop 20 commits ?post
        (f @ b1 @ ?r, ?n + of_nat (commit_overflow ?c))
      = ((f @ b1 @ ?r) @ b2, ?n + of_nat (commit_overflow ?c) + of_nat (overflow_entries ?post))"
    using data_loop_shape [OF wpost] by blast
  have "write_graph_chunk_data_loop 20 commits commits (f, 0)
      = write_graph_chunk_data_loop 20 commits (?pre @ [?c] @ ?post) (f, 0)"
    using split by simp
  also have "\<dots> = write_graph_chunk_data_loop 20 commits ?post
        (f @ b1 @ ?r, ?n + of_nat (commit_overflow ?c))"
    by (simp only: data_loop_append b1 write_graph_chunk_data_loop.simps data_body_record)
       simp
  finally have "write_graph_chunk_data f 20 commits = f @ b1 @ ?r @ b2"
    by (simp add: write_graph_chunk_data_def b2)
  moreover have "length b1 = 36 * i" using l1 assms(2) by simp
  moreover have "length ?r = 36"
    using assms by (simp add: length_data_record_of)
  ultimately show ?thesis by simp
qed

section \<open>Facts about 32-bit and 64-bit words\<close>

text \<open>
  Bit 31 is the flag \<open>0x80000000\<close>; the mask \<open>0x7fffffff\<close> keeps the other 31 bits, which
  hold a table index unchanged as long as the table has fewer than \<open>2^31\<close> commits.
\<close>

lemma m31: "(0x7fffffff :: 32 word) = mask 31"
  by (simp add: mask_eq_exp_minus_1)

lemma bit31_missing: "\<not> bit (0x7fffffff :: 32 word) 31"
  by (simp add: m31 bit_mask_iff)

lemma bit31_flag: "bit (0x80000000 :: 32 word) n \<longleftrightarrow> n = 31"
proof -
  have "(0x80000000 :: 32 word) = 2 ^ 31" by simp
  then show ?thesis by (simp only: bit_exp_iff) auto
qed

lemma bit31_or: "bit (x OR 0x80000000 :: 32 word) 31"
  by (simp only: bit_or_iff bit31_flag) simp

lemma and_or_31: "(x OR 0x80000000) AND 0x7fffffff = x AND (0x7fffffff :: 32 word)"
  by (rule bit_word_eqI) (auto simp only: bit_and_iff bit_or_iff bit31_flag m31 bit_mask_iff)

lemma idx_mask: 
  assumes "j < 2 ^ 31" shows "(of_nat j :: 32 word) AND 0x7fffffff = of_nat j"
proof -
  have "unat (of_nat j :: 32 word) = j" using assms by (simp add: unat_of_nat)
  then have "(of_nat j :: 32 word) < 2 ^ 31" using assms by (simp add: word_less_nat_alt)
  then show ?thesis unfolding m31 by (rule less_mask_eq)
qed

lemma idx_bit31: "j < 2 ^ 31 \<Longrightarrow> \<not> bit (of_nat j :: 32 word) 31"
  by (metis bit31_missing bit_and_iff idx_mask)

lemma hi_word: "(ucast (drop_bit 32 (d :: 64 word) AND 0x3) :: 32 word) = of_nat ((unat d div 2 ^ 32) mod 4)"
proof -
  have 3: "(3 :: 64 word) = mask 2" by (simp add: mask_eq_exp_minus_1)
  have "unat (drop_bit 32 d AND 3) = (unat d div 2 ^ 32) mod 4"
    unfolding 3
    by (simp add: drop_bit_eq_div unat_div unat_mod flip: take_bit_eq_mask add: take_bit_eq_mod)
  moreover have "(ucast w :: 32 word) = of_nat (unat w)" for w :: "64 word"
    by simp
  ultimately show ?thesis by (simp only:)
qed

lemma lo_word: "(ucast (d :: 64 word) :: 32 word) = of_nat (unat d mod 2 ^ 32)"
proof (rule word_unat_eq_iff [THEN iffD2])
  show "unat (ucast d :: 32 word) = unat (of_nat (unat d mod 2 ^ 32) :: 32 word)"
    by (simp add: unsigned_ucast_eq take_bit_eq_mod unat_of_nat)
qed

text \<open>The four bytes of \<open>htonl x\<close> read most significant byte first give \<open>x\<close> back.\<close>

lemma word_bytes_big_endian:
  "unat (ucast (drop_bit 24 x) :: 8 word) * 2 ^ 24 + unat (ucast (drop_bit 16 x) :: 8 word) * 2 ^ 16
   + unat (ucast (drop_bit 8 x) :: 8 word) * 2 ^ 8 + unat (ucast x :: 8 word) = unat (x :: 32 word)"
proof -
  define n where "n = unat x"
  have b: "n < 2 ^ 32" unfolding n_def using unsigned_less [of x] by simp
  have e: "unat (ucast (drop_bit 24 x) :: 8 word) = (n div 2 ^ 24) mod 256"
    "unat (ucast (drop_bit 16 x) :: 8 word) = (n div 2 ^ 16) mod 256"
    "unat (ucast (drop_bit 8 x) :: 8 word) = (n div 2 ^ 8) mod 256"
    "unat (ucast x :: 8 word) = n mod 256"
    unfolding n_def
    by (simp_all add: unsigned_ucast_eq take_bit_eq_mod drop_bit_eq_div unat_div)
  have m1: "n mod 65536 = 256 * (n div 256 mod 256) + n mod 256"
    using mod_mult2_eq [of n 256 256] by simp
  have m2: "n mod 16777216 = 65536 * (n div 65536 mod 256) + n mod 65536"
    using mod_mult2_eq [of n 65536 256] by simp
  have m3: "n mod 4294967296 = 16777216 * (n div 16777216 mod 256) + n mod 16777216"
    using mod_mult2_eq [of n 16777216 256] by simp
  have m4: "n mod 4294967296 = n" using b by simp
  have "(n div 16777216 mod 256) * 16777216 + (n div 65536 mod 256) * 65536
      + (n div 256 mod 256) * 256 + n mod 256 = n"
    using m1 m2 m3 m4 by linarith
  moreover have "unat x = n" by (simp add: n_def)
  moreover have "n div 16777216 mod 256 = n div 16777216" using b by simp
  ultimately show ?thesis by (simp only: e) simp
qed

lemma htonl_big_endian:
  "unat (htonl x ! 0) * 2 ^ 24 + unat (htonl x ! 1) * 2 ^ 16 + unat (htonl x ! 2) * 2 ^ 8
     + unat (htonl x ! 3) = unat x"
proof -
  have "htonl x ! 0 = ucast (drop_bit 24 x)" "htonl x ! 1 = ucast (drop_bit 16 x)"
    "htonl x ! 2 = ucast (drop_bit 8 x)" "htonl x ! 3 = ucast x"
    by (simp_all add: htonl_def)
  then show ?thesis by (simp only: word_bytes_big_endian)
qed

section \<open>The OVERFLOW_EDGES chunk\<close>

lemma count_parents_upto_3_eq:
  "n \<le> 3 \<Longrightarrow> count_parents_upto_3 ps n = min 3 (n + int (length ps))"
  by (induction ps arbitrary: n) auto

lemma count_parents_upto_3_le: "count_parents_upto_3 ps 0 \<le> 2 \<longleftrightarrow> length ps \<le> 2"
  by (simp add: count_parents_upto_3_eq min_def)

lemma large_edges_for_eq: "large_edges_for commits f ps = f @ edge_run commits ps"
  by (induction ps arbitrary: f)
     (auto simp: Let_def sha1write_def edge_entry_def split: prod.splits)

lemma length_edge_run [simp]: "length (edge_run commits ps) = 4 * length ps"
  by (induction ps) auto

lemma edge_run_nth:
  "k < length ps \<Longrightarrow>
     take 4 (drop (4 * k) (edge_run commits ps))
       = htonl (edge_entry commits (ps ! k) (Suc k = length ps))"
proof (induction ps arbitrary: k)
  case Nil
  then show ?case by simp
next
  case (Cons p ps)
  show ?case
  proof (cases k)
    case 0
    then show ?thesis by auto
  next
    case (Suc k')
    then have "k' < length ps" using Cons.prems by simp
    from Cons.IH [OF this] show ?thesis using Suc by simp
  qed
qed

lemma length_commit_edges: "length (commit_edges commits c) = 4 * commit_overflow c"
  by (simp add: commit_edges_def commit_overflow_def)

lemma large_edges_loop_eq:
  "write_graph_chunk_large_edges_loop commits xs f = f @ concat (map (commit_edges commits) xs)"
  by (induction xs arbitrary: f)
     (auto simp: count_parents_upto_3_le large_edges_for_eq commit_edges_def)

lemma length_concat_commit_edges:
  "length (concat (map (commit_edges commits) xs)) = 4 * overflow_entries xs"
  by (induction xs) (auto simp: length_commit_edges)

lemma large_edges_run_at:
  assumes "i < length commits"
  shows "take (4 * commit_overflow (commits ! i))
           (drop (length f + 4 * overflow_entries (take i commits))
              (write_graph_chunk_large_edges f commits))
       = commit_edges commits (commits ! i)"
proof -
  let ?pre = "take i commits" and ?post = "drop (Suc i) commits" and ?c = "commits ! i"
  have split: "commits = ?pre @ [?c] @ ?post"
    using assms by (simp add: id_take_nth_drop)
  have "write_graph_chunk_large_edges f commits
      = f @ concat (map (commit_edges commits) (?pre @ [?c] @ ?post))"
    unfolding write_graph_chunk_large_edges_def large_edges_loop_eq using split by simp
  then have "write_graph_chunk_large_edges f commits
      = f @ concat (map (commit_edges commits) ?pre) @ commit_edges commits ?c
          @ concat (map (commit_edges commits) ?post)"
    by simp
  then show ?thesis
    by (simp add: length_concat_commit_edges length_commit_edges)
qed

section \<open>The parent slots of a DATA record\<close>

lemma parent0_slot_cases:
  assumes "table_sorted commits" and "length commits < 2 ^ 31"
  shows "(parents c = [] \<longrightarrow> parent0_slot commits c = GRAPH_PARENT_NONE)
       \<and> (\<forall>j < length commits. parents c \<noteq> [] \<and> oid (commits ! j) = hd (parents c) \<longrightarrow>
             parent0_slot commits c = of_nat j)
       \<and> (parents c \<noteq> [] \<and> (\<forall>j < length commits. oid (commits ! j) \<noteq> hd (parents c)) \<longrightarrow>
             parent0_slot commits c = GRAPH_PARENT_MISSING)"
proof (intro conjI allI impI)
  assume "parents c = []"
  then show "parent0_slot commits c = GRAPH_PARENT_NONE" by (simp add: parent0_slot_def)
next
  fix j assume "j < length commits" "parents c \<noteq> [] \<and> oid (commits ! j) = hd (parents c)"
  then show "parent0_slot commits c = of_nat j"
    using commit_pos_found [OF assms, of j "hd (parents c)"] by (simp add: parent0_slot_def)
next
  assume a: "parents c \<noteq> [] \<and> (\<forall>j < length commits. oid (commits ! j) \<noteq> hd (parents c))"
  then have "fst (commit_pos commits (hd (parents c))) = 0"
    using commit_pos_missing [OF assms] by blast
  then show "parent0_slot commits c = GRAPH_PARENT_MISSING"
    using a by (cases "commit_pos commits (hd (parents c))") (simp add: parent0_slot_def)
qed

lemma data_field_at:
  assumes "\<forall>c \<in> set commits. length (tree c) = 20" and "i < length commits"
    and "off + len \<le> 36"
  shows "take len (drop (length f + 36 * i + off) (write_graph_chunk_data f 20 commits))
       = take len (drop off
           (data_record_of 20 commits (commits ! i) (of_nat (overflow_entries (take i commits)))))"
proof -
  have "take len (drop (length f + 36 * i + off) (write_graph_chunk_data f 20 commits))
      = take len (drop off (take 36 (drop (length f + 36 * i) (write_graph_chunk_data f 20 commits))))"
    using assms(3) by (simp add: drop_take add.commute min_def)
  then show ?thesis by (simp only: data_record_at [OF assms(1,2)])
qed

lemma data_record_fields:
  assumes "length (tree c) = 20"
  shows "take 20 (data_record_of 20 commits c n) = tree c"
    and "take 4 (drop 20 (data_record_of 20 commits c n)) = htonl (parent0_slot commits c)"
    and "take 4 (drop 24 (data_record_of 20 commits c n)) = htonl (parent1_slot commits c n)"
    and "take 8 (drop 28 (data_record_of 20 commits c n))
           = htonl (ucast (drop_bit 32 (date c) AND 0x3)) @ htonl (ucast (date c))"
  using assms by (simp_all add: data_record_of_def)

lemma write_commit_graph_ok:
  assumes "opendir_ok e \<or> mkdir_ok e" and "mkstemp_ok e" and "rename_ok e"
  shows "write_commit_graph obj_dir e =
     Inr (''graph-'' @ sha1_to_hex (sha1 e (graph_body (fst (commit_table (odb e) (collect_oids e))) (snd (commit_table (odb e) (collect_oids e)))))
            @ ''.graph'',
          graph_body (fst (commit_table (odb e) (collect_oids e))) (snd (commit_table (odb e) (collect_oids e)))
            @ sha1 e (graph_body (fst (commit_table (odb e) (collect_oids e))) (snd (commit_table (odb e) (collect_oids e)))))"
  using assms by (auto simp: write_commit_graph_def sha1close_def Let_def split: prod.splits)

text \<open>
  C4. In the DATA record of every table commit the Parent-0 slot (bytes 20 to 23) is
  \<open>0x70000000\<close> when the commit has no parents, the table index of the first parent
  when that parent's identifier is in the table, and \<open>0x7FFFFFFF\<close> otherwise. No
  parent lookup can end the run: whenever the filesystem calls succeed, the write returns
  the file.
\<close>

theorem parent0_slot_encoding:
  assumes "table_sorted commits" and "length commits < 2 ^ 31"
    and "\<forall>c \<in> set commits. length (tree c) = 20" and "i < length commits"
  shows "(let slot = take 4 (drop (length f + 36 * i + 20)
                        (write_graph_chunk_data f GRAPH_OID_LEN commits));
              ps = parents (commits ! i)
          in (ps = [] \<longrightarrow> slot = htonl GRAPH_PARENT_NONE)
           \<and> (\<forall>j < length commits. ps \<noteq> [] \<and> oid (commits ! j) = hd ps \<longrightarrow> slot = htonl (of_nat j))
           \<and> (ps \<noteq> [] \<and> (\<forall>j < length commits. oid (commits ! j) \<noteq> hd ps) \<longrightarrow>
                slot = htonl GRAPH_PARENT_MISSING))
       \<and> (\<forall>obj_dir e. (opendir_ok e \<or> mkdir_ok e) \<and> mkstemp_ok e \<and> rename_ok e \<longrightarrow>
            (\<exists>graph_name. write_commit_graph obj_dir e =
               Inr (graph_name, graph_body (fst (commit_table (odb e) (collect_oids e))) (snd (commit_table (odb e) (collect_oids e)))
                     @ sha1 e (graph_body (fst (commit_table (odb e) (collect_oids e))) (snd (commit_table (odb e) (collect_oids e)))))))"
proof -
  have t: "length (tree (commits ! i)) = 20" using assms(3,4) by simp
  have "take 4 (drop (length f + 36 * i + 20) (write_graph_chunk_data f 20 commits))
      = htonl (parent0_slot commits (commits ! i))"
    using data_field_at [OF assms(3,4), of 20 4 f] data_record_fields(2) [OF t] by simp
  then have 1: "(let slot = take 4 (drop (length f + 36 * i + 20)
                        (write_graph_chunk_data f GRAPH_OID_LEN commits));
              ps = parents (commits ! i)
          in (ps = [] \<longrightarrow> slot = htonl GRAPH_PARENT_NONE)
           \<and> (\<forall>j < length commits. ps \<noteq> [] \<and> oid (commits ! j) = hd ps \<longrightarrow> slot = htonl (of_nat j))
           \<and> (ps \<noteq> [] \<and> (\<forall>j < length commits. oid (commits ! j) \<noteq> hd ps) \<longrightarrow>
                slot = htonl GRAPH_PARENT_MISSING))"
    using parent0_slot_cases [OF assms(1,2), of "commits ! i"] by (simp add: Let_def)
  have 2: "\<exists>graph_name. write_commit_graph obj_dir e =
               Inr (graph_name, graph_body (fst (commit_table (odb e) (collect_oids e))) (snd (commit_table (odb e) (collect_oids e)))
                     @ sha1 e (graph_body (fst (commit_table (odb e) (collect_oids e))) (snd (commit_table (odb e) (collect_oids e)))))"
    if "(opendir_ok e \<or> mkdir_ok e) \<and> mkstemp_ok e \<and> rename_ok e" for obj_dir e
    using write_commit_graph_ok [of e obj_dir] that by blast
  show ?thesis using 1 2 by blast
qed

theorem parent0_slot_encoding_witness:
  "take 4 (drop (36 * 0 + 20) (write_graph_chunk_data [] GRAPH_OID_LEN
      [example_commit 1 [] 1000, example_commit 5 [1] 5, example_commit 9 [7] 9]))
     = htonl GRAPH_PARENT_NONE
   \<and> take 4 (drop (36 * 1 + 20) (write_graph_chunk_data [] GRAPH_OID_LEN
      [example_commit 1 [] 1000, example_commit 5 [1] 5, example_commit 9 [7] 9]))
     = htonl 0
   \<and> take 4 (drop (36 * 2 + 20) (write_graph_chunk_data [] GRAPH_OID_LEN
      [example_commit 1 [] 1000, example_commit 5 [1] 5, example_commit 9 [7] 9]))
     = htonl GRAPH_PARENT_MISSING"
proof -
  let ?T = "[example_commit 1 [] 1000, example_commit 5 [1] 5, example_commit 9 [7] 9]"
  have s: "table_sorted ?T"
    by (simp add: table_sorted_def example_commit_def example_oid_def)
  have l: "length ?T < 2 ^ 31" by simp
  have w: "\<forall>c \<in> set ?T. length (tree c) = 20"
    by (simp add: example_commit_def example_oid_def)
  have i: "0 < length ?T" "1 < length ?T" "2 < length ?T" by simp_all
  have a: "take 4 (drop (36 * 0 + 20) (write_graph_chunk_data [] GRAPH_OID_LEN ?T))
      = htonl GRAPH_PARENT_NONE"
    using parent0_slot_encoding [OF s l w i(1), of "[]", THEN conjunct1]
    by (simp add: Let_def example_commit_def)
  have b: "take 4 (drop (36 * 1 + 20) (write_graph_chunk_data [] GRAPH_OID_LEN ?T)) = htonl 0"
    using parent0_slot_encoding [OF s l w i(2), of "[]", THEN conjunct1]
    by (simp add: Let_def example_commit_def All_less_Suc)
  have c: "take 4 (drop (36 * 2 + 20) (write_graph_chunk_data [] GRAPH_OID_LEN ?T))
      = htonl GRAPH_PARENT_MISSING"
    using parent0_slot_encoding [OF s l w i(3), of "[]", THEN conjunct1]
    by (simp add: Let_def example_commit_def example_oid_def All_less_Suc)
  show ?thesis using a b c by blast
qed

section \<open>The packed date of a DATA record\<close>

text \<open>
  C8. The packed date of every DATA record (bytes 28 to 35) is the big-endian word
  \<open>(date >> 32) & 3\<close>, whose other bits are zero, followed by the big-endian low 32 bits
  of the date: together the date modulo \<open>2^34\<close>. The writer has no error result.
\<close>

theorem packed_date_encoding:
  assumes "\<forall>c \<in> set commits. length (tree c) = 20" and "i < length commits"
  shows "(let d = date (commits ! i);
              packed = take 8 (drop (length f + 36 * i + 28)
                          (write_graph_chunk_data f GRAPH_OID_LEN commits));
              w1 = (of_nat ((unat d div 2 ^ 32) mod 4) :: uint32_t);
              w2 = (of_nat (unat d mod 2 ^ 32) :: uint32_t)
          in packed = htonl w1 @ htonl w2
           \<and> w1 = ucast (drop_bit 32 d AND 0x3) \<and> w2 = ucast d
           \<and> unat w1 * 2 ^ 32 + unat w2 = unat d mod 2 ^ 34)"
proof -
  let ?d = "date (commits ! i)"
  have t: "length (tree (commits ! i)) = 20" using assms by simp
  have p: "take 8 (drop (length f + 36 * i + 28) (write_graph_chunk_data f 20 commits))
      = htonl (ucast (drop_bit 32 ?d AND 0x3)) @ htonl (ucast ?d)"
    using data_field_at [OF assms, of 28 8 f] data_record_fields(4) [OF t] by simp
  have u1: "unat (of_nat ((unat ?d div 2 ^ 32) mod 4) :: uint32_t) = (unat ?d div 2 ^ 32) mod 4"
    by (simp add: unat_of_nat)
  have u2: "unat (of_nat (unat ?d mod 2 ^ 32) :: uint32_t) = unat ?d mod 2 ^ 32"
    by (simp add: unat_of_nat)
  have "unat ?d mod (4294967296 * 4) = 4294967296 * (unat ?d div 4294967296 mod 4) + unat ?d mod 4294967296"
    by (rule mod_mult2_eq)
  then have m: "(unat ?d div 2 ^ 32) mod 4 * 2 ^ 32 + unat ?d mod 2 ^ 32 = unat ?d mod 2 ^ 34"
    by simp
  show ?thesis
    unfolding Let_def u1 u2 using p m hi_word [of ?d] lo_word [of ?d] by simp
qed

theorem packed_date_encoding_witness:
  "take 8 (drop (36 * 1 + 28) (write_graph_chunk_data [] GRAPH_OID_LEN
      [example_commit 1 [] 1000, example_commit 5 [1] 0x4C0000001, example_commit 9 [7] 9]))
     = htonl 0 @ htonl 0xC0000001"
proof -
  let ?T = "[example_commit 1 [] 1000, example_commit 5 [1] 0x4C0000001, example_commit 9 [7] 9]"
  have w: "\<forall>c \<in> set ?T. length (tree c) = 20"
    by (simp add: example_commit_def example_oid_def)
  have i: "1 < length ?T" by simp
  show ?thesis
    using packed_date_encoding [OF w i, of "[]"]
    by (simp add: Let_def example_commit_def)
qed

section \<open>The running counter of overflow entries\<close>

lemma overflow_entries_take:
  "i \<le> length commits \<Longrightarrow>
     overflow_entries (take i commits) = (\<Sum>j<i. commit_overflow (commits ! j))"
proof -
  assume "i \<le> length commits"
  then have "overflow_entries (take i commits)
      = (\<Sum>j = 0..<i. map commit_overflow (take i commits) ! j)"
    by (simp add: overflow_entries_def sum_list_sum_nth)
  also have "\<dots> = (\<Sum>j = 0..<i. commit_overflow (commits ! j))"
    using \<open>i \<le> length commits\<close> by (intro sum.cong) simp_all
  finally show ?thesis by (simp add: lessThan_atLeast0)
qed

section \<open>The entries of the OVERFLOW_EDGES chunk\<close>

lemma edge_entry_cases:
  assumes "table_sorted commits" and "length commits < 2 ^ 31"
  shows "(bit (edge_entry commits p is_last) 31 \<longleftrightarrow> is_last)
       \<and> (\<forall>j < length commits. oid (commits ! j) = p \<longrightarrow>
             edge_entry commits p is_last AND 0x7fffffff = of_nat j)
       \<and> ((\<forall>j < length commits. oid (commits ! j) \<noteq> p) \<longrightarrow>
             edge_entry commits p is_last AND 0x7fffffff = 0x7fffffff)"
proof -
  from commit_pos_cases [OF assms, of p]
  consider (found) q where "commit_pos commits p = (1, q)" "unat q < length commits"
      "oid (commits ! unat q) = p"
    | (missing) "fst (commit_pos commits p) = 0" "\<forall>j < length commits. oid (commits ! j) \<noteq> p"
    by blast
  then show ?thesis
  proof cases
    case found
    have q: "q = of_nat (unat q)" by simp
    have lt: "unat q < 2 ^ 31" using found(2) assms(2) by simp
    have nb: "\<not> bit q 31" using idx_bit31 [OF lt] by simp
    have mk: "q AND 0x7fffffff = q" using idx_mask [OF lt] by simp
    have uniq: "of_nat j = q" if "j < length commits" "oid (commits ! j) = p" for j
      using table_sorted_unique [OF assms(1) that(1) found(2)] that(2) found(3) by simp
    have e: "edge_entry commits p is_last = (if is_last then q OR 0x80000000 else q)"
      by (simp add: edge_entry_def found(1))
    show ?thesis
    proof (cases is_last)
      case True
      then show ?thesis using e found(2,3) uniq mk bit31_or [of q] and_or_31 [of q] by auto
    next
      case False
      then show ?thesis using e found(2,3) uniq mk nb by auto
    qed
  next
    case missing
    have e: "edge_entry commits p is_last
        = (if is_last then 0x7fffffff OR 0x80000000 else 0x7fffffff)"
      using missing(1) by (cases "commit_pos commits p") (simp add: edge_entry_def)
    show ?thesis
    proof (cases is_last)
      case True
      then show ?thesis
        using e missing(2) bit31_or [of "0x7fffffff"] and_or_31 [of "0x7fffffff"] by auto
    next
      case False
      then show ?thesis using e missing(2) bit31_missing by auto
    qed
  qed
qed

lemma large_edges_entry_at:
  assumes "i < length commits" and "length (parents (commits ! i)) > 2"
    and "k < length (parents (commits ! i)) - 1"
  shows "take 4 (drop (length f + 4 * (overflow_entries (take i commits) + k))
                    (write_graph_chunk_large_edges f commits))
       = htonl (edge_entry commits (parents (commits ! i) ! (k + 1))
                  (k = length (parents (commits ! i)) - 2))"
proof -
  let ?c = "commits ! i" and ?b = "length f + 4 * overflow_entries (take i commits)"
  let ?out = "write_graph_chunk_large_edges f commits"
  have co: "commit_overflow ?c = length (parents ?c) - 1"
    using assms(2) by (simp add: commit_overflow_def)
  have run: "take (4 * (length (parents ?c) - 1)) (drop ?b ?out) = edge_run commits (tl (parents ?c))"
    using large_edges_run_at [OF assms(1), of f] assms(2) by (simp add: co commit_edges_def)
  have "take 4 (drop (?b + 4 * k) ?out)
      = take 4 (drop (4 * k) (take (4 * (length (parents ?c) - 1)) (drop ?b ?out)))"
    using assms(3) by (simp add: drop_take add.commute min_def)
  also have "\<dots> = take 4 (drop (4 * k) (edge_run commits (tl (parents ?c))))"
    by (simp only: run)
  also have "\<dots> = htonl (edge_entry commits (tl (parents ?c) ! k) (Suc k = length (tl (parents ?c))))"
    using assms(3) by (intro edge_run_nth) simp
  also have "tl (parents ?c) ! k = parents ?c ! (k + 1)"
    using assms(3) by (simp add: nth_tl)
  also have "(Suc k = length (tl (parents ?c))) = (k = length (parents ?c) - 2)"
    using assms(2) by auto
  finally show ?thesis by (simp add: add_mult_distrib2 add.assoc)
qed

lemma length_large_edges:
  "length (write_graph_chunk_large_edges f commits) = length f + 4 * overflow_entries commits"
  by (simp add: write_graph_chunk_large_edges_def large_edges_loop_eq length_concat_commit_edges)

text \<open>
  C3. The OVERFLOW_EDGES chunk holds 4 bytes for each of the \<open>parent_count - 1\<close> parents
  after the first of every table commit with more than two parents, and nothing else; the
  run of such a commit starts after the runs of the commits before it. Entry \<open>k\<close> of the
  run is, in big-endian, the table index of parent \<open>k + 1\<close>, or \<open>0x7FFFFFFF\<close> when that
  parent is not in the table, with bit 31 set on the final entry of the run and on no other.
\<close>

theorem overflow_edges_chunk:
  assumes "table_sorted commits" and "length commits < 2 ^ 31"
    and "i < length commits" and "length (parents (commits ! i)) > 2"
    and "k < length (parents (commits ! i)) - 1"
  shows "length (write_graph_chunk_large_edges f commits)
           = length f + 4 * (\<Sum>c\<leftarrow>commits. if length (parents c) > 2 then length (parents c) - 1 else 0)
       \<and> (\<exists>v. take 4 (drop (length f
                  + 4 * ((\<Sum>c\<leftarrow>take i commits. if length (parents c) > 2
                                                  then length (parents c) - 1 else 0) + k))
                    (write_graph_chunk_large_edges f commits)) = htonl v
            \<and> (bit v 31 \<longleftrightarrow> k = length (parents (commits ! i)) - 2)
            \<and> (\<forall>j < length commits. oid (commits ! j) = parents (commits ! i) ! (k + 1) \<longrightarrow>
                 v AND 0x7fffffff = of_nat j)
            \<and> ((\<forall>j < length commits. oid (commits ! j) \<noteq> parents (commits ! i) ! (k + 1)) \<longrightarrow>
                 v AND 0x7fffffff = 0x7fffffff))"
proof -
  have s: "(\<Sum>c\<leftarrow>xs. if length (parents c) > 2 then length (parents c) - 1 else 0)
      = overflow_entries xs" for xs
    by (simp add: overflow_entries_def commit_overflow_def cong: map_cong)
  show ?thesis
    unfolding s
    using length_large_edges [of f commits] large_edges_entry_at [OF assms(3,4,5), of f]
      edge_entry_cases [OF assms(1,2), of "parents (commits ! i) ! (k + 1)"
        "k = length (parents (commits ! i)) - 2"]
    by blast
qed

theorem overflow_edges_chunk_witness:
  "length (write_graph_chunk_large_edges []
      [example_commit 1 [2, 3, 4] 0, example_commit 5 [1] 0, example_commit 9 [1, 5, 7, 9] 0])
     = 4 * 5
   \<and> (\<exists>v. take 4 (drop (4 * (2 + 2)) (write_graph_chunk_large_edges []
      [example_commit 1 [2, 3, 4] 0, example_commit 5 [1] 0, example_commit 9 [1, 5, 7, 9] 0]))
        = htonl v \<and> bit v 31 \<and> v AND 0x7fffffff = 2)
   \<and> (\<exists>v. take 4 (drop (4 * (2 + 1)) (write_graph_chunk_large_edges []
      [example_commit 1 [2, 3, 4] 0, example_commit 5 [1] 0, example_commit 9 [1, 5, 7, 9] 0]))
        = htonl v \<and> \<not> bit v 31 \<and> v AND 0x7fffffff = 0x7fffffff)"
proof -
  let ?T = "[example_commit 1 [2, 3, 4] 0, example_commit 5 [1] 0, example_commit 9 [1, 5, 7, 9] 0]"
  have s: "table_sorted ?T"
    by (simp add: table_sorted_def example_commit_def example_oid_def)
  have l: "length ?T < 2 ^ 31" by simp
  have i: "2 < length ?T" by simp
  have p: "length (parents (?T ! 2)) > 2" by (simp add: example_commit_def)
  have k: "2 < length (parents (?T ! 2)) - 1" "1 < length (parents (?T ! 2)) - 1"
    by (simp_all add: example_commit_def)
  have a: "length (write_graph_chunk_large_edges [] ?T) = 4 * 5"
    using overflow_edges_chunk [OF s l i p k(1), of "[]", THEN conjunct1]
    by (simp add: example_commit_def)
  have b: "\<exists>v. take 4 (drop (4 * (2 + 2)) (write_graph_chunk_large_edges [] ?T)) = htonl v
      \<and> bit v 31 \<and> v AND 0x7fffffff = 2"
    using overflow_edges_chunk [OF s l i p k(1), of "[]", THEN conjunct2]
    by (simp add: example_commit_def example_oid_def All_less_Suc)
  have c: "\<exists>v. take 4 (drop (4 * (2 + 1)) (write_graph_chunk_large_edges [] ?T)) = htonl v
      \<and> \<not> bit v 31 \<and> v AND 0x7fffffff = 0x7fffffff"
    using overflow_edges_chunk [OF s l i p k(2), of "[]", THEN conjunct2]
    by (simp add: example_commit_def example_oid_def All_less_Suc)
  show ?thesis using a b c by blast
qed

section \<open>The Parent-1 slot of a commit with more than two parents\<close>

text \<open>
  C2. For a table commit with more than two parents the Parent-1 slot (bytes 24 to 27 of
  its DATA record) is \<open>0x80000000\<close> OR'd with the 32-bit running counter \<open>k\<close>, which has
  been incremented by \<open>parent_count - 1\<close> for each earlier table commit with more than two
  parents. Entry \<open>k\<close> of the OVERFLOW_EDGES chunk is this commit's first overflow entry:
  there the run of its parents after the first begins, and on a sorted table the entry
  at byte \<open>4 * k\<close> holds the table index of its second parent (or \<open>0x7FFFFFFF\<close> when that
  parent is not in the table) without the end-of-list bit. The low 31 bits of the slot
  are \<open>k\<close> whenever \<open>k\<close> is below \<open>2^31\<close> (as it is while \<^verbatim>\<open>num_long_edges\<close> fits an
  \<^verbatim>\<open>int\<close>).
\<close>

theorem parent1_slot_overflow:
  assumes "\<forall>c \<in> set commits. length (tree c) = 20" and "i < length commits"
    and "length (parents (commits ! i)) > 2"
  shows "(let k = (\<Sum>j<i. if length (parents (commits ! j)) > 2
                           then length (parents (commits ! j)) - 1 else 0);
              ps = parents (commits ! i)
          in take 4 (drop (length f + 36 * i + 24) (write_graph_chunk_data f GRAPH_OID_LEN commits))
               = htonl (GRAPH_LARGE_EDGES_NEEDED OR of_nat k)
           \<and> take (4 * (length ps - 1))
                 (drop (length g + 4 * k) (write_graph_chunk_large_edges g commits))
               = edge_run commits (tl ps)
           \<and> (table_sorted commits \<and> length commits < 2 ^ 31 \<longrightarrow>
                 (\<exists>v. take 4 (drop (length g + 4 * k) (write_graph_chunk_large_edges g commits))
                        = htonl v
                      \<and> \<not> bit v 31
                      \<and> (\<forall>j < length commits. oid (commits ! j) = ps ! 1 \<longrightarrow>
                            v AND 0x7fffffff = of_nat j)
                      \<and> ((\<forall>j < length commits. oid (commits ! j) \<noteq> ps ! 1) \<longrightarrow>
                            v AND 0x7fffffff = 0x7fffffff)))
           \<and> (k < 2 ^ 31 \<longrightarrow>
                 (GRAPH_LARGE_EDGES_NEEDED OR of_nat k) AND 0x7fffffff = (of_nat k :: uint32_t)
                 \<and> unat (of_nat k :: uint32_t) = k))"
proof -
  let ?c = "commits ! i"
  let ?k = "overflow_entries (take i commits)"
  let ?out = "write_graph_chunk_large_edges g commits"
  have k: "(\<Sum>j<i. if length (parents (commits ! j)) > 2
                           then length (parents (commits ! j)) - 1 else 0) = ?k"
    using assms(2) by (simp add: overflow_entries_take commit_overflow_def)
  have t: "length (tree ?c) = 20" using assms(1,2) by simp
  have "take 4 (drop (length f + 36 * i + 24) (write_graph_chunk_data f 20 commits))
      = htonl (parent1_slot commits ?c (of_nat ?k))"
    using data_field_at [OF assms(1,2), of 24 4 f] data_record_fields(3) [OF t] by simp
  then have 1: "take 4 (drop (length f + 36 * i + 24) (write_graph_chunk_data f 20 commits))
      = htonl (GRAPH_LARGE_EDGES_NEEDED OR of_nat ?k)"
    using assms(3) by (simp add: parent1_slot_def)
  have co: "commit_overflow ?c = length (parents ?c) - 1"
    using assms(3) by (simp add: commit_overflow_def)
  have 2: "take (4 * (length (parents ?c) - 1)) (drop (length g + 4 * ?k) ?out)
      = edge_run commits (tl (parents ?c))"
    using large_edges_run_at [OF assms(2), of g] assms(3)
    by (simp add: co commit_edges_def)
  have first: "take 4 (drop (length g + 4 * ?k) ?out)
      = htonl (edge_entry commits (parents ?c ! 1) False)"
    using large_edges_entry_at [OF assms(2,3), of 0 g] assms(3) by simp
  have 3: "\<exists>v. take 4 (drop (length g + 4 * ?k) ?out) = htonl v
        \<and> \<not> bit v 31
        \<and> (\<forall>j < length commits. oid (commits ! j) = parents ?c ! 1 \<longrightarrow>
              v AND 0x7fffffff = of_nat j)
        \<and> ((\<forall>j < length commits. oid (commits ! j) \<noteq> parents ?c ! 1) \<longrightarrow>
              v AND 0x7fffffff = 0x7fffffff)"
    if "table_sorted commits \<and> length commits < 2 ^ 31"
  proof -
    from that have s: "table_sorted commits" and l: "length commits < 2 ^ 31" by simp_all
    show ?thesis
      using first edge_entry_cases [OF s l, of "parents ?c ! 1" False] by blast
  qed
  have 4: "(GRAPH_LARGE_EDGES_NEEDED OR of_nat n) AND 0x7fffffff = (of_nat n :: uint32_t)
      \<and> unat (of_nat n :: uint32_t) = n" if "n < 2 ^ 31" for n :: nat
    using that idx_mask [OF that] and_or_31 [of "of_nat n"] by (simp add: unat_of_nat or.commute)
  show ?thesis unfolding Let_def k using 1 2 3 4 by simp
qed

theorem parent1_slot_overflow_witness:
  "take 4 (drop (36 * 2 + 24) (write_graph_chunk_data [] GRAPH_OID_LEN
      [example_commit 1 [2, 3, 4] 0, example_commit 5 [1] 0, example_commit 9 [1, 5, 7, 9] 0]))
     = htonl (GRAPH_LARGE_EDGES_NEEDED OR 2)
   \<and> (\<exists>v. take 4 (drop (4 * 2) (write_graph_chunk_large_edges []
      [example_commit 1 [2, 3, 4] 0, example_commit 5 [1] 0, example_commit 9 [1, 5, 7, 9] 0]))
        = htonl v \<and> \<not> bit v 31 \<and> v AND 0x7fffffff = 1)"
proof -
  let ?T = "[example_commit 1 [2, 3, 4] 0, example_commit 5 [1] 0, example_commit 9 [1, 5, 7, 9] 0]"
  have w: "\<forall>c \<in> set ?T. length (tree c) = 20"
    by (simp add: example_commit_def example_oid_def)
  have i: "2 < length ?T" by simp
  have p: "length (parents (?T ! 2)) > 2" by (simp add: example_commit_def)
  have s: "table_sorted ?T"
    by (simp add: table_sorted_def example_commit_def example_oid_def)
  have e: "{..<2::nat} = {0, 1}" by auto
  note inst = parent1_slot_overflow [OF w i p, of "[]" "[]", unfolded Let_def]
  have a: "take 4 (drop (36 * 2 + 24) (write_graph_chunk_data [] GRAPH_OID_LEN ?T))
      = htonl (GRAPH_LARGE_EDGES_NEEDED OR 2)"
    using inst [THEN conjunct1] by (simp add: example_commit_def e)
  have b: "\<exists>v. take 4 (drop (4 * 2) (write_graph_chunk_large_edges [] ?T)) = htonl v
      \<and> \<not> bit v 31 \<and> v AND 0x7fffffff = 1"
    using inst [THEN conjunct2, THEN conjunct2, THEN conjunct1] s
    by (simp add: example_commit_def example_oid_def e All_less_Suc)
  show ?thesis using a b by blast
qed

section \<open>The commit set builder\<close>

lemma oidcmp_le: "oidcmp a b \<le> 0 \<longleftrightarrow> a \<le> b"
  using oidcmp_less [of a b] oidcmp_eq [of a b] by (auto simp: le_less)

lemma qsort_insert_eq: "qsort_insert commit_compare x ys = insort x ys"
  by (induction ys) (auto simp: commit_compare_def oidcmp_le)

lemma QSORT_eq: "QSORT xs commit_compare = sort xs"
  by (induction xs) (auto simp: qsort_insert_eq sort_key_def)

lemma build_commits_eq:
  "build_commits db oids i (commits, n) =
     (commits @ map (lookup_commit db) (kept_oids oids i),
      n + long_edges_of (map (lookup_commit db) (kept_oids oids i)))"
proof (induction db oids i "(commits, n)" arbitrary: commits n rule: build_commits.induct)
  case (1 db oids i)
  show ?case
  proof (cases "i < length oids")
    case False
    then show ?thesis
      by (subst build_commits.simps) (simp add: kept_oids_def long_edges_of_def)
  next
    case True
    then have upt: "[i..<length oids] = i # [i + 1..<length oids]"
      by (simp add: upt_conv_Cons)
    show ?thesis
    proof (cases "i > 0 \<and> oidcmp (oids ! (i - 1)) (oids ! i) = 0")
      case dup: True
      then have k: "kept_oids oids i = kept_oids oids (i + 1)"
        unfolding kept_oids_def upt by (simp add: oidcmp_eq)
      have "build_commits db oids i (commits, n) = build_commits db oids (i + 1) (commits, n)"
        using True dup by (subst build_commits.simps) simp
      then show ?thesis
        using "1.hyps"(1) [OF refl True dup] by (simp add: k)
    next
      case new: False
      let ?c = "lookup_commit db (oids ! i)"
      let ?n = "(if int (length (parents ?c)) > 2 then n + (int (length (parents ?c)) - 1) else n)"
      have k: "kept_oids oids i = oids ! i # kept_oids oids (i + 1)"
        using new unfolding kept_oids_def upt by (auto simp: oidcmp_eq)
      have "build_commits db oids i (commits, n)
          = build_commits db oids (i + 1) (commits @ [?c], ?n)"
        using True new by (subst build_commits.simps) (auto simp: Let_def)
      then show ?thesis
        using "1.hyps"(2) [OF refl True new refl refl refl]
        by (simp add: k long_edges_of_def)
    qed
  qed
qed

lemma kept_oids_strict:
  assumes "sorted oids"
  shows "sorted_wrt (<) (kept_oids oids 0)"
proof -
  let ?keep = "\<lambda>j. \<not> (j > 0 \<and> oids ! (j - 1) = oids ! j)"
  let ?js = "filter ?keep [0..<length oids]"
  have js: "sorted_wrt (<) ?js" by (rule sorted_wrt_filter) simp
  have step: "oids ! a < oids ! b" if "a \<in> set ?js" "b \<in> set ?js" "a < b" for a b
  proof -
    from that have b: "b < length oids" "?keep b" by auto
    have "a \<le> b - 1" "b - 1 < length oids" "b - 1 \<le> b" using that(3) b(1) by auto
    then have "oids ! a \<le> oids ! (b - 1)" "oids ! (b - 1) \<le> oids ! b"
      using sorted_nth_mono [OF assms, of a "b - 1"] sorted_nth_mono [OF assms, of "b - 1" b] b(1)
      by blast+
    then have le: "oids ! a \<le> oids ! (b - 1)" "oids ! (b - 1) \<le> oids ! b" by blast+
    have "oids ! (b - 1) \<noteq> oids ! b" using b(2) that(3) by auto
    then have "oids ! (b - 1) < oids ! b" using le(2) by simp
    then show ?thesis using le(1) by (rule le_less_trans [rotated])
  qed
  have "sorted_wrt (\<lambda>a b. oids ! a < oids ! b) ?js"
    using step by (rule sorted_wrt_mono_rel [OF _ js])
  then show ?thesis by (simp add: kept_oids_def sorted_wrt_map)
qed

lemma kept_oids_set: "set (kept_oids oids 0) = set oids"
proof
  show "set (kept_oids oids 0) \<subseteq> set oids" by (auto simp: kept_oids_def)
next
  show "set oids \<subseteq> set (kept_oids oids 0)"
  proof
    fix x assume "x \<in> set oids"
    then obtain j where j: "j < length oids" "oids ! j = x" by (auto simp: in_set_conv_nth)
    define m where "m = (LEAST j. j < length oids \<and> oids ! j = x)"
    have m: "m < length oids \<and> oids ! m = x"
      unfolding m_def by (rule LeastI [of _ j]) (use j in simp)
    have "\<not> (m > 0 \<and> oids ! (m - 1) = oids ! m)"
    proof
      assume a: "m > 0 \<and> oids ! (m - 1) = oids ! m"
      then have "m - 1 < length oids \<and> oids ! (m - 1) = x" using m by auto
      then have "m \<le> m - 1" unfolding m_def by (rule Least_le)
      moreover have "0 < m" using a by simp
      ultimately show False by linarith
    qed
    then show "x \<in> set (kept_oids oids 0)"
      using m by (auto simp: kept_oids_def)
  qed
qed

section \<open>The commit table and the OID_LOOKUP chunk\<close>

lemma oid_lookup_commit [simp]: "oid (lookup_commit db x) = x"
  by (simp add: lookup_commit_def split: prod.splits)

lemma commit_table_eq:
  "commit_table db oids =
     (map (lookup_commit db) (kept_oids (sort oids) 0),
      long_edges_of (map (lookup_commit db) (kept_oids (sort oids) 0)))"
  by (simp add: commit_table_def QSORT_eq build_commits_eq)

lemma commit_table_oids: "map oid (fst (commit_table db oids)) = kept_oids (sort oids) 0"
  by (simp add: commit_table_eq comp_def)

lemma table_sorted_iff: "table_sorted commits \<longleftrightarrow> sorted_wrt (<) (map oid commits)"
  by (simp add: table_sorted_def sorted_wrt_map oidcmp_less)

lemma commit_table_sorted: "table_sorted (fst (commit_table db oids))"
  unfolding table_sorted_iff commit_table_oids by (rule kept_oids_strict) simp

lemma commit_table_set: "set (map oid (fst (commit_table db oids))) = set oids"
  unfolding commit_table_oids by (simp add: kept_oids_set)

lemma write_graph_chunk_oids_eq:
  "write_graph_chunk_oids f hash_len list = f @ concat (map (\<lambda>c. take hash_len (oid c)) list)"
  by (induction list arbitrary: f) (auto simp: sha1write_def)

text \<open>
  C5. Whatever identifiers were collected, duplicates included, the commit table built
  from them is strictly increasing by identifier, so it has no duplicates; it holds
  exactly the collected identifiers, and the OID_LOOKUP chunk is the concatenation of the
  table's identifiers in table order.
\<close>

theorem commit_table_strictly_increasing:
  assumes "\<forall>x \<in> set oids. length x = GRAPH_OID_LEN"
  shows "table_sorted (fst (commit_table db oids))
       \<and> distinct (map oid (fst (commit_table db oids)))
       \<and> set (map oid (fst (commit_table db oids))) = set oids
       \<and> write_graph_chunk_oids f GRAPH_OID_LEN (fst (commit_table db oids))
           = f @ concat (map oid (fst (commit_table db oids)))"
proof -
  let ?T = "fst (commit_table db oids)"
  have s: "table_sorted ?T" by (rule commit_table_sorted)
  then have d: "distinct (map oid ?T)"
    unfolding table_sorted_iff by (simp add: strict_sorted_iff)
  have e: "set (map oid ?T) = set oids" by (rule commit_table_set)
  have "take 20 (oid c) = oid c" if "c \<in> set ?T" for c
  proof -
    have "oid c \<in> set oids" using that e by auto
    then show ?thesis using assms by simp
  qed
  then have "map (\<lambda>c. take 20 (oid c)) ?T = map oid ?T" by (intro map_cong) simp_all
  then have "write_graph_chunk_oids f 20 ?T = f @ concat (map oid ?T)"
    by (simp only: write_graph_chunk_oids_eq)
  then show ?thesis using s d e by blast
qed

theorem commit_table_strictly_increasing_witness:
  "map oid (fst (commit_table (\<lambda>x. (example_oid 0, [], 0))
      [example_oid 5, example_oid 1, example_oid 5])) = [example_oid 1, example_oid 5]
   \<and> table_sorted (fst (commit_table (\<lambda>x. (example_oid 0, [], 0))
      [example_oid 5, example_oid 1, example_oid 5]))
   \<and> write_graph_chunk_oids [] GRAPH_OID_LEN (fst (commit_table (\<lambda>x. (example_oid 0, [], 0))
      [example_oid 5, example_oid 1, example_oid 5])) = example_oid 1 @ example_oid 5"
proof -
  let ?db = "\<lambda>x :: object_id. (example_oid 0, [] :: object_id list, 0 :: uint64_t)"
  let ?oids = "[example_oid 5, example_oid 1, example_oid 5]"
  have w: "\<forall>x \<in> set ?oids. length x = GRAPH_OID_LEN" by (simp add: example_oid_def)
  have m: "map oid (fst (commit_table ?db ?oids)) = [example_oid 1, example_oid 5]"
    by code_simp
  show ?thesis
    using commit_table_strictly_increasing [OF w, of ?db "[]"] m by simp
qed

section \<open>The file for a store without commits\<close>

lemma concat_map_const4: "concat (map (\<lambda>b. [a, a, a, a]) xs) = replicate (4 * length xs) a"
proof (induction xs)
  case Nil
  then show ?case by simp
next
  case (Cons x xs)
  have "replicate (4 + 4 * length xs) a = replicate 4 a @ replicate (4 * length xs) a"
    by (simp only: replicate_add)
  also have "replicate 4 a = [a, a, a, a]" by (simp add: numeral_eq_Suc)
  finally show ?case using Cons by simp
qed

lemma htonl_0: "htonl 0 = [0, 0, 0, 0]"
  by (simp add: htonl_def)

lemma fanout_empty: "write_graph_chunk_fanout f [] = f @ replicate 1024 0"
proof -
  have "write_graph_chunk_fanout f []
      = f @ concat (map (\<lambda>b. htonl (of_nat (fanout_count [] b))) [0..<256])"
    unfolding write_graph_chunk_fanout_def by (rule fanout_for_sorted) simp_all
  then show ?thesis by (simp add: fanout_count_def htonl_0 concat_map_const4)
qed

lemma commit_table_empty: "commit_table db [] = ([], 0)"
  by (simp add: commit_table_def build_commits.simps)

lemma chunk_lookup_empty:
  "write_chunk_lookup f (chunk_ids_of 0) (chunk_offsets_of 0 0) 0 3
     = f @ htonl GRAPH_CHUNKID_OIDFANOUT @ htonl 0 @ htonl 68
         @ htonl GRAPH_CHUNKID_OIDLOOKUP @ htonl 0 @ htonl 1092
         @ htonl GRAPH_CHUNKID_DATA @ htonl 0 @ htonl 1092
         @ htonl 0 @ htonl 0 @ htonl 1092"
  by (simp add: write_chunk_lookup.simps chunk_ids_of_def chunk_offsets_of_def int32_def
      Let_def sha1write_def)

lemma graph_body_empty:
  "graph_body [] 0
     = htonl GRAPH_SIGNATURE @ [1, 1, 3, 0]
         @ htonl GRAPH_CHUNKID_OIDFANOUT @ htonl 0 @ htonl 68
         @ htonl GRAPH_CHUNKID_OIDLOOKUP @ htonl 0 @ htonl 1092
         @ htonl GRAPH_CHUNKID_DATA @ htonl 0 @ htonl 1092
         @ htonl 0 @ htonl 0 @ htonl 1092
         @ replicate 1024 0"
  by (simp add: graph_body_def Let_def chunk_lookup_empty fanout_empty
      write_graph_chunk_data_def write_graph_chunk_large_edges_def
      sha1write_be32_def sha1write_def sha1write_u8_def)

lemma length_graph_body_empty: "length (graph_body [] 0) = 1080"
  by (simp add: graph_body_empty)

text \<open>
  C7. With no identifier collected the commit table is empty and the overflow-edge count
  is zero; the header announces 3 chunks, the FANOUT chunk is 1024 zero bytes, the DATA
  and OVERFLOW_EDGES writers add nothing, and the file is the 8-byte header, four lookup
  entries, the FANOUT chunk and the 20-byte trailer: \<open>8 + 4 * 12 + 1024 + 20\<close> bytes.
\<close>

theorem empty_store_graph_file:
  assumes "collect_oids e = []" and "\<forall>bs. length (sha1 e bs) = 20"
    and "opendir_ok e \<or> mkdir_ok e" and "mkstemp_ok e" and "rename_ok e"
  shows "commit_table (odb e) (collect_oids e) = ([], 0)
       \<and> write_graph_chunk_fanout [] [] = replicate 1024 0
       \<and> write_graph_chunk_data [] GRAPH_OID_LEN [] = []
       \<and> write_graph_chunk_large_edges [] [] = []
       \<and> (\<exists>graph_name file. write_commit_graph obj_dir e = Inr (graph_name, file)
            \<and> length file = 8 + 4 * 12 + 1024 + 20
            \<and> file ! 6 = 3
            \<and> take 1024 (drop (8 + 4 * 12) file) = replicate 1024 0
            \<and> drop (8 + 4 * 12 + 1024) file = sha1 e (take (8 + 4 * 12 + 1024) file))"
proof -
  let ?b = "graph_body [] 0"
  have t: "commit_table (odb e) (collect_oids e) = ([], 0)"
    by (simp add: assms(1) commit_table_empty)
  have w: "write_commit_graph obj_dir e
      = Inr (''graph-'' @ sha1_to_hex (sha1 e ?b) @ ''.graph'', ?b @ sha1 e ?b)"
    using write_commit_graph_ok [OF assms(3,4,5), of obj_dir] by (simp add: t)
  have l: "length (?b @ sha1 e ?b) = 8 + 4 * 12 + 1024 + 20"
    using assms(2) by (simp add: length_graph_body_empty)
  have n: "(?b @ sha1 e ?b) ! 6 = 3"
    by (simp add: graph_body_empty htonl_def)
  have z: "take 1024 (drop (8 + 4 * 12) (?b @ sha1 e ?b)) = replicate 1024 0"
    by (simp add: graph_body_empty)
  have h: "drop (8 + 4 * 12 + 1024) (?b @ sha1 e ?b) = sha1 e (take (8 + 4 * 12 + 1024) (?b @ sha1 e ?b))"
    by (simp add: length_graph_body_empty)
  have "write_graph_chunk_fanout [] [] = replicate 1024 0"
    using fanout_empty [of "[]"] by simp
  moreover have "write_graph_chunk_data [] GRAPH_OID_LEN [] = []"
    by (simp add: write_graph_chunk_data_def)
  moreover have "write_graph_chunk_large_edges [] [] = []"
    by (simp add: write_graph_chunk_large_edges_def)
  ultimately show ?thesis using t w l n z h by blast
qed

theorem empty_store_graph_file_witness:
  "\<exists>graph_name file.
     write_commit_graph ''objects''
       \<lparr>packed_objects = [(example_oid 3, OBJ_BLOB)], odb = (\<lambda>x. (example_oid 0, [], 0)),
        sha1 = (\<lambda>bs. replicate 20 7), opendir_ok = False, mkdir_ok = True,
        mkstemp_ok = True, rename_ok = True\<rparr> = Inr (graph_name, file)
     \<and> length file = 1100"
proof -
  let ?e = "\<lparr>packed_objects = [(example_oid 3, OBJ_BLOB)],
             odb = (\<lambda>x :: object_id. (example_oid 0, [] :: object_id list, 0 :: uint64_t)),
             sha1 = (\<lambda>bs :: byte list. replicate 20 (7 :: byte)), opendir_ok = False, mkdir_ok = True,
             mkstemp_ok = True, rename_ok = True\<rparr>"
  have c: "collect_oids ?e = []"
    by (simp add: collect_oids_def if_packed_commit_add_to_list_def)
  have h: "\<forall>bs. length (sha1 ?e bs) = 20" by simp
  have f: "opendir_ok ?e \<or> mkdir_ok ?e" "mkstemp_ok ?e" "rename_ok ?e" by simp_all
  show ?thesis
    using empty_store_graph_file [OF c h f, of "''objects''"] by auto
qed

section \<open>Determinism of write_commit_graph\<close>

lemma kept_oids_sort_unique:
  assumes "set xs = set ys"
  shows "kept_oids (sort xs) 0 = kept_oids (sort ys) 0"
proof -
  have "sorted_wrt (<) (kept_oids (sort xs) 0)" "sorted_wrt (<) (kept_oids (sort ys) 0)"
    by (rule kept_oids_strict, simp)+
  then have "sorted (kept_oids (sort xs) 0)" "distinct (kept_oids (sort xs) 0)"
    "sorted (kept_oids (sort ys) 0)" "distinct (kept_oids (sort ys) 0)"
    by (simp_all add: strict_sorted_iff)
  moreover have "set (kept_oids (sort xs) 0) = set (kept_oids (sort ys) 0)"
    using assms by (simp add: kept_oids_set)
  ultimately show ?thesis by (rule sorted_distinct_set_unique)
qed

lemma commit_table_cong:
  assumes "set xs = set ys" and "\<forall>x \<in> set xs. db1 x = db2 x"
  shows "commit_table db1 xs = commit_table db2 ys"
proof -
  have "lookup_commit db1 x = lookup_commit db2 x" if "x \<in> set (kept_oids (sort xs) 0)" for x
    using that assms(2) by (simp add: kept_oids_set lookup_commit_def)
  then have "map (lookup_commit db1) (kept_oids (sort xs) 0)
      = map (lookup_commit db2) (kept_oids (sort xs) 0)"
    by (intro map_cong) simp_all
  then show ?thesis
    unfolding commit_table_eq kept_oids_sort_unique [OF assms(1), symmetric] by (simp only:)
qed

text \<open>
  C9. Two runs that collect the same identifiers (in any order, with any repetitions),
  read the same commit metadata for them and use the same hash build the same commit
  table; when both return, they return the same file bytes and the same name, whatever
  the object directory and the path taken through the filesystem calls; and both return
  whenever their filesystem calls succeed.
\<close>

theorem write_commit_graph_deterministic:
  assumes "set (collect_oids e1) = set (collect_oids e2)"
    and "\<forall>x \<in> set (collect_oids e1). odb e1 x = odb e2 x"
    and "sha1 e1 = sha1 e2"
  shows "commit_table (odb e1) (collect_oids e1) = commit_table (odb e2) (collect_oids e2)
       \<and> (\<forall>r1 r2. write_commit_graph dir1 e1 = Inr r1 \<and> write_commit_graph dir2 e2 = Inr r2
             \<longrightarrow> r1 = r2)
       \<and> ((opendir_ok e1 \<or> mkdir_ok e1) \<and> mkstemp_ok e1 \<and> rename_ok e1
          \<and> (opendir_ok e2 \<or> mkdir_ok e2) \<and> mkstemp_ok e2 \<and> rename_ok e2
            \<longrightarrow> (\<exists>r. write_commit_graph dir1 e1 = Inr r \<and> write_commit_graph dir2 e2 = Inr r))"
proof -
  have t: "commit_table (odb e1) (collect_oids e1) = commit_table (odb e2) (collect_oids e2)"
    by (rule commit_table_cong [OF assms(1,2)])
  have eq: "r1 = r2"
    if "write_commit_graph dir1 e1 = Inr r1" "write_commit_graph dir2 e2 = Inr r2" for r1 r2
    using that unfolding write_commit_graph_def t assms(3)
    by (auto simp: Let_def split: prod.splits if_splits)
  have ok: "\<exists>r. write_commit_graph dir1 e1 = Inr r \<and> write_commit_graph dir2 e2 = Inr r"
    if "(opendir_ok e1 \<or> mkdir_ok e1) \<and> mkstemp_ok e1 \<and> rename_ok e1
          \<and> (opendir_ok e2 \<or> mkdir_ok e2) \<and> mkstemp_ok e2 \<and> rename_ok e2"
    using write_commit_graph_ok [of e1 dir1] write_commit_graph_ok [of e2 dir2] that
    by (simp add: t assms(3))
  show ?thesis using t eq ok by blast
qed

theorem write_commit_graph_deterministic_witness:
  "\<exists>r. write_commit_graph ''objects''
       \<lparr>packed_objects = [(example_oid 5, OBJ_COMMIT), (example_oid 1, OBJ_COMMIT),
                          (example_oid 5, OBJ_COMMIT)],
        odb = (\<lambda>x. (example_oid 0, [], 0)), sha1 = (\<lambda>bs. replicate 20 7),
        opendir_ok = False, mkdir_ok = True, mkstemp_ok = True, rename_ok = True\<rparr> = Inr r
     \<and> write_commit_graph ''repo/objects''
       \<lparr>packed_objects = [(example_oid 1, OBJ_COMMIT), (example_oid 3, OBJ_BLOB),
                          (example_oid 5, OBJ_COMMIT)],
        odb = (\<lambda>x. (example_oid 0, [], 0)), sha1 = (\<lambda>bs. replicate 20 7),
        opendir_ok = True, mkdir_ok = False, mkstemp_ok = True, rename_ok = True\<rparr> = Inr r"
proof -
  let ?e1 = "\<lparr>packed_objects = [(example_oid 5, OBJ_COMMIT), (example_oid 1, OBJ_COMMIT),
                          (example_oid 5, OBJ_COMMIT)],
        odb = (\<lambda>x :: object_id. (example_oid 0, [] :: object_id list, 0 :: uint64_t)),
        sha1 = (\<lambda>bs :: byte list. replicate 20 (7 :: byte)),
        opendir_ok = False, mkdir_ok = True, mkstemp_ok = True, rename_ok = True\<rparr>"
  let ?e2 = "\<lparr>packed_objects = [(example_oid 1, OBJ_COMMIT), (example_oid 3, OBJ_BLOB),
                          (example_oid 5, OBJ_COMMIT)],
        odb = (\<lambda>x :: object_id. (example_oid 0, [] :: object_id list, 0 :: uint64_t)),
        sha1 = (\<lambda>bs :: byte list. replicate 20 (7 :: byte)),
        opendir_ok = True, mkdir_ok = False, mkstemp_ok = True, rename_ok = True\<rparr>"
  have s: "set (collect_oids ?e1) = set (collect_oids ?e2)"
    by (auto simp: collect_oids_def if_packed_commit_add_to_list_def)
  have d: "\<forall>x \<in> set (collect_oids ?e1). odb ?e1 x = odb ?e2 x" by simp
  have h: "sha1 ?e1 = sha1 ?e2" by simp
  show ?thesis
    using write_commit_graph_deterministic [OF s d h, of "''objects''" "''repo/objects''",
        THEN conjunct2, THEN conjunct2]
    by simp
qed

section \<open>The layout of the file\<close>

lemma length_be64 [simp]: "length (be64 x) = 8"
  by (simp add: be64_def)

lemma fanout_for_prefix_all:
  fixes f :: sha1file
  shows "\<forall>g. fanout_for g list i count = g @ fanout_for [] list i count"
proof (induction f list i count rule: fanout_for.induct)
  case (1 f list i count)
  show ?case
  proof (cases "i < 256")
    case False
    then show ?thesis by (simp add: fanout_for.simps)
  next
    case True
    obtain list' count' where fw: "fanout_while list i count = (list', count')"
      by (cases "fanout_while list i count")
    have ih: "\<forall>g. fanout_for g list' (i + 1) count' = g @ fanout_for [] list' (i + 1) count'"
      using "1.IH" [OF True fw [symmetric]] .
    show ?thesis
    proof
      fix g
      have "fanout_for g list i count = fanout_for (sha1write_be32 g count') list' (i + 1) count'"
        using True fw by (subst fanout_for.simps) simp
      also have "\<dots> = sha1write_be32 g count' @ fanout_for [] list' (i + 1) count'"
        using ih by blast
      also have "\<dots> = g @ (sha1write_be32 [] count' @ fanout_for [] list' (i + 1) count')"
        by (simp add: sha1write_be32_def sha1write_def)
      also have "sha1write_be32 [] count' @ fanout_for [] list' (i + 1) count'
          = fanout_for (sha1write_be32 [] count') list' (i + 1) count'"
        using ih by metis
      also have "\<dots> = fanout_for [] list i count"
        using True fw by (subst (2) fanout_for.simps) simp
      finally show "fanout_for g list i count = g @ fanout_for [] list i count" .
    qed
  qed
qed

lemma length_fanout_for:
  "i \<le> 256 \<Longrightarrow> length (fanout_for f list i count) = length f + 4 * (256 - i)"
proof (induction f list i count rule: fanout_for.induct)
  case (1 f list i count)
  show ?case
  proof (cases "i < 256")
    case False
    then show ?thesis using "1.prems" by (simp add: fanout_for.simps)
  next
    case True
    obtain list' count' where fw: "fanout_while list i count = (list', count')"
      by (cases "fanout_while list i count")
    have "length (fanout_for (sha1write_be32 f count') list' (i + 1) count')
        = length (sha1write_be32 f count') + 4 * (256 - (i + 1))"
      using "1.IH" [OF True fw [symmetric]] True by simp
    moreover have "fanout_for f list i count
        = fanout_for (sha1write_be32 f count') list' (i + 1) count'"
      using True fw by (subst fanout_for.simps) simp
    ultimately show ?thesis
      using True by (simp add: sha1write_be32_def sha1write_def)
  qed
qed

lemma fanout_prefix: "write_graph_chunk_fanout f commits = f @ write_graph_chunk_fanout [] commits"
  unfolding write_graph_chunk_fanout_def using fanout_for_prefix_all by blast

lemma length_fanout: "length (write_graph_chunk_fanout [] commits) = 1024"
  by (simp add: write_graph_chunk_fanout_def length_fanout_for)

lemma data_loop_prefix:
  "write_graph_chunk_data_loop hash_len commits xs (f, n)
     = (f @ fst (write_graph_chunk_data_loop hash_len commits xs ([], n)),
        snd (write_graph_chunk_data_loop hash_len commits xs ([], n)))"
proof (induction xs arbitrary: f n)
  case Nil
  then show ?case by simp
next
  case (Cons c xs)
  let ?r = "data_record_of hash_len commits c n" and ?n = "n + of_nat (commit_overflow c)"
  show ?case
    using Cons [of "f @ ?r" ?n] Cons [of ?r ?n] by (simp add: data_body_record)
qed

lemma data_prefix:
  "write_graph_chunk_data f hash_len commits = f @ write_graph_chunk_data [] hash_len commits"
  unfolding write_graph_chunk_data_def by (subst data_loop_prefix) simp

lemma length_data:
  assumes "\<forall>c \<in> set commits. length (tree c) = 20"
  shows "length (write_graph_chunk_data [] 20 commits) = 36 * length commits"
  using data_loop_shape [OF assms, of commits "[]" 0] by (auto simp: write_graph_chunk_data_def)

lemma length_oids:
  assumes "\<forall>c \<in> set commits. length (oid c) = 20"
  shows "length (write_graph_chunk_oids [] 20 commits) = 20 * length commits"
  using assms unfolding write_graph_chunk_oids_eq by (induction commits) auto

lemma oids_prefix:
  "write_graph_chunk_oids f hash_len commits = f @ write_graph_chunk_oids [] hash_len commits"
  by (simp add: write_graph_chunk_oids_eq)

lemma large_edges_prefix:
  "write_graph_chunk_large_edges f commits = f @ write_graph_chunk_large_edges [] commits"
  by (simp add: write_graph_chunk_large_edges_def large_edges_loop_eq)

lemma long_edges_of_eq: "long_edges_of list = int (overflow_entries list)"
  by (induction list) (auto simp: long_edges_of_def commit_overflow_def)

lemma chunk_lookup_3:
  "write_chunk_lookup f ids offs 0 3
     = f @ htonl (ids ! 0) @ be64 (offs ! 0) @ htonl (ids ! 1) @ be64 (offs ! 1)
         @ htonl (ids ! 2) @ be64 (offs ! 2) @ htonl (ids ! 3) @ be64 (offs ! 3)"
  by (simp add: write_chunk_lookup.simps Let_def sha1write_def be64_def eval_nat_numeral)

lemma chunk_lookup_4:
  "write_chunk_lookup f ids offs 0 4
     = f @ htonl (ids ! 0) @ be64 (offs ! 0) @ htonl (ids ! 1) @ be64 (offs ! 1)
         @ htonl (ids ! 2) @ be64 (offs ! 2) @ htonl (ids ! 3) @ be64 (offs ! 3)
         @ htonl (ids ! 4) @ be64 (offs ! 4)"
  by (simp add: write_chunk_lookup.simps Let_def sha1write_def be64_def eval_nat_numeral)

lemma take_drop_middle:
  "length pre = n \<Longrightarrow> length x = m \<Longrightarrow> take m (drop n (pre @ x @ post)) = x"
  by simp

lemma int32_id: "0 \<le> x \<Longrightarrow> x < 2 ^ 31 \<Longrightarrow> int32 x = x"
  by (simp add: int32_def)

text \<open>
  The largest product is \<open>36 * nr\<close>: it fits up to 59,652,323 commits and wraps to a
  negative \<^verbatim>\<open>int\<close> from 59,652,324 on.
\<close>

lemma int32_first_overflow:
  "int32 (36 * 59652323) = 36 * 59652323 \<and> int32 (36 * 59652324) = - 2147483632"
  by (simp add: int32_def)

text \<open>The offsets as long as no product overflows.\<close>

lemma chunk_offsets_of_eq:
  assumes "36 * N < 2 ^ 31" and "4 * v < 2 ^ 31"
  shows "chunk_offsets_of (int N) (int v)
     = [of_nat 68, of_nat (68 + 1024), of_nat (68 + 1024 + 20 * N),
        of_nat (68 + 1024 + 56 * N), of_nat (68 + 1024 + 56 * N + 4 * v)]"
proof -
  have "int32 68 = 68" by (simp add: int32_def)
  moreover have "int32 (20 * int N) = 20 * int N" "int32 (36 * int N) = 36 * int N"
    using assms(1) by (simp_all add: int32_id)
  moreover have "int32 (4 * int v) = 4 * int v"
    using assms(2) by (simp add: int32_id)
  ultimately show ?thesis by (simp add: chunk_offsets_of_def Let_def)
qed

text \<open>
  With an OVERFLOW_EDGES chunk the five lookup entries fill the 60 bytes the offsets
  allow for, and every recorded offset is the position of its chunk (as long as the
  32-bit products do not overflow).
\<close>

lemma graph_layout_four_chunks:
  assumes "\<forall>c \<in> set commits. length (oid c) = 20 \<and> length (tree c) = 20"
    and "overflow_entries commits \<noteq> 0"
    and "36 * length commits < 2 ^ 31" and "4 * overflow_entries commits < 2 ^ 31"
  shows "(let N = length commits; v = overflow_entries commits; b = graph_body commits (int v)
          in take 60 (drop 8 b)
               = htonl GRAPH_CHUNKID_OIDFANOUT @ be64 (of_nat 68)
               @ htonl GRAPH_CHUNKID_OIDLOOKUP @ be64 (of_nat (68 + 1024))
               @ htonl GRAPH_CHUNKID_DATA @ be64 (of_nat (68 + 1024 + 20 * N))
               @ htonl GRAPH_CHUNKID_LARGEEDGES @ be64 (of_nat (68 + 1024 + 56 * N))
               @ htonl 0 @ be64 (of_nat (68 + 1024 + 56 * N + 4 * v))
           \<and> take 1024 (drop 68 b) = write_graph_chunk_fanout [] commits
           \<and> take (20 * N) (drop (68 + 1024) b) = write_graph_chunk_oids [] 20 commits
           \<and> take (36 * N) (drop (68 + 1024 + 20 * N) b) = write_graph_chunk_data [] 20 commits
           \<and> drop (68 + 1024 + 56 * N) b = write_graph_chunk_large_edges [] commits
           \<and> length b = 68 + 1024 + 56 * N + 4 * v)"
proof -
  let ?N = "length commits" and ?v = "overflow_entries commits"
  let ?F = "write_graph_chunk_fanout [] commits" and ?O = "write_graph_chunk_oids [] 20 commits"
  let ?D = "write_graph_chunk_data [] 20 commits" and ?E = "write_graph_chunk_large_edges [] commits"
  let ?L = "htonl GRAPH_CHUNKID_OIDFANOUT @ be64 (of_nat 68)
               @ htonl GRAPH_CHUNKID_OIDLOOKUP @ be64 (of_nat (68 + 1024))
               @ htonl GRAPH_CHUNKID_DATA @ be64 (of_nat (68 + 1024 + 20 * ?N))
               @ htonl GRAPH_CHUNKID_LARGEEDGES @ be64 (of_nat (68 + 1024 + 56 * ?N))
               @ htonl 0 @ be64 (of_nat (68 + 1024 + 56 * ?N + 4 * ?v))"
  let ?H = "htonl GRAPH_SIGNATURE @ [1, 1, 4, 0 :: byte]"
  define H L F O' D E where "H = ?H" and "L = ?L" and "F = ?F" and "O' = ?O" and "D = ?D"
    and "E = ?E"
  have lF: "length F = 1024" unfolding F_def by (rule length_fanout)
  have lO: "length O' = 20 * ?N" unfolding O'_def using assms(1) by (simp add: length_oids)
  have lD: "length D = 36 * ?N" unfolding D_def using assms(1) by (simp add: length_data)
  have lE: "length E = 4 * ?v" unfolding E_def using length_large_edges [of "[]" commits] by simp
  have lL: "length L = 60" unfolding L_def by simp
  have lH: "length H = 8" unfolding H_def by simp
  have b: "graph_body commits (int ?v) = H @ L @ F @ O' @ D @ E"
    unfolding graph_body_def Let_def chunk_offsets_of_eq [OF assms(3,4)]
      H_def L_def F_def O'_def D_def E_def
    using assms(2)
    by (simp add: chunk_lookup_4 chunk_ids_of_def sha1write_be32_def sha1write_def
        sha1write_u8_def fanout_prefix [of "_ @ _"] oids_prefix [of "_ @ _"]
        data_prefix [of "_ @ _"] large_edges_prefix [of "_ @ _"])
  have 1: "take 60 (drop 8 (H @ L @ F @ O' @ D @ E)) = L"
    by (rule take_drop_middle [OF lH lL])
  have 2: "take 1024 (drop 68 (H @ L @ F @ O' @ D @ E)) = F"
    using take_drop_middle [of "H @ L" 68 F 1024 "O' @ D @ E"] lH lL lF by simp
  have 3: "take (20 * ?N) (drop (68 + 1024) (H @ L @ F @ O' @ D @ E)) = O'"
    using take_drop_middle [of "H @ L @ F" "68 + 1024" O' "20 * ?N" "D @ E"] lH lL lF lO by simp
  have 4: "take (36 * ?N) (drop (68 + 1024 + 20 * ?N) (H @ L @ F @ O' @ D @ E)) = D"
    using take_drop_middle [of "H @ L @ F @ O'" "68 + 1024 + 20 * ?N" D "36 * ?N" E]
      lH lL lF lO lD by simp
  have 5: "drop (68 + 1024 + 56 * ?N) (H @ L @ F @ O' @ D @ E) = E"
    using lH lL lF lO lD by simp
  have 6: "length (H @ L @ F @ O' @ D @ E) = 68 + 1024 + 56 * ?N + 4 * ?v"
    using lH lL lF lO lD lE by simp
  show ?thesis
    unfolding Let_def b using 1 2 3 4 5 6
    by (simp only: L_def F_def O'_def D_def E_def)
qed

text \<open>
  Without an OVERFLOW_EDGES chunk only four lookup entries are written, so every chunk
  begins 12 bytes before the offset recorded for it.
\<close>

lemma graph_layout_three_chunks:
  assumes "\<forall>c \<in> set commits. length (oid c) = 20 \<and> length (tree c) = 20"
    and "overflow_entries commits = 0" and "36 * length commits < 2 ^ 31"
  shows "(let N = length commits; b = graph_body commits 0
          in take 48 (drop 8 b)
               = htonl GRAPH_CHUNKID_OIDFANOUT @ be64 (of_nat 68)
               @ htonl GRAPH_CHUNKID_OIDLOOKUP @ be64 (of_nat (68 + 1024))
               @ htonl GRAPH_CHUNKID_DATA @ be64 (of_nat (68 + 1024 + 20 * N))
               @ htonl 0 @ be64 (of_nat (68 + 1024 + 56 * N))
           \<and> take 1024 (drop 56 b) = write_graph_chunk_fanout [] commits
           \<and> take (20 * N) (drop (56 + 1024) b) = write_graph_chunk_oids [] 20 commits
           \<and> drop (56 + 1024 + 20 * N) b = write_graph_chunk_data [] 20 commits
           \<and> length b = 56 + 1024 + 56 * N)"
proof -
  let ?N = "length commits"
  let ?F = "write_graph_chunk_fanout [] commits" and ?O = "write_graph_chunk_oids [] 20 commits"
  let ?D = "write_graph_chunk_data [] 20 commits"
  let ?L = "htonl GRAPH_CHUNKID_OIDFANOUT @ be64 (of_nat 68)
               @ htonl GRAPH_CHUNKID_OIDLOOKUP @ be64 (of_nat (68 + 1024))
               @ htonl GRAPH_CHUNKID_DATA @ be64 (of_nat (68 + 1024 + 20 * ?N))
               @ htonl 0 @ be64 (of_nat (68 + 1024 + 56 * ?N))"
  let ?H = "htonl GRAPH_SIGNATURE @ [1, 1, 3, 0 :: byte]"
  define H L F O' D where "H = ?H" and "L = ?L" and "F = ?F" and "O' = ?O" and "D = ?D"
  have lF: "length F = 1024" unfolding F_def by (rule length_fanout)
  have lO: "length O' = 20 * ?N" unfolding O'_def using assms(1) by (simp add: length_oids)
  have lD: "length D = 36 * ?N" unfolding D_def using assms(1) by (simp add: length_data)
  have E: "write_graph_chunk_large_edges [] commits = []"
    using length_large_edges [of "[]" commits] assms(2) by simp
  have lL: "length L = 48" unfolding L_def by simp
  have lH: "length H = 8" unfolding H_def by simp
  have "chunk_offsets_of (int ?N) 0 = chunk_offsets_of (int ?N) (int 0)" by simp
  moreover have "chunk_offsets_of (int ?N) (int 0)
      = [of_nat 68, of_nat (68 + 1024), of_nat (68 + 1024 + 20 * ?N),
         of_nat (68 + 1024 + 56 * ?N), of_nat (68 + 1024 + 56 * ?N + 4 * 0)]"
    by (rule chunk_offsets_of_eq [OF assms(3)]) simp
  ultimately have off: "chunk_offsets_of (int ?N) 0
      = [of_nat 68, of_nat (68 + 1024), of_nat (68 + 1024 + 20 * ?N),
         of_nat (68 + 1024 + 56 * ?N), of_nat (68 + 1024 + 56 * ?N + 4 * 0)]"
    by (simp only:)
  have b: "graph_body commits 0 = H @ L @ F @ O' @ D"
    unfolding graph_body_def Let_def off H_def L_def F_def O'_def D_def
    by (simp add: chunk_lookup_3 chunk_ids_of_def sha1write_be32_def sha1write_def
        sha1write_u8_def fanout_prefix [of "_ @ _"] oids_prefix [of "_ @ _"]
        data_prefix [of "_ @ _"] large_edges_prefix [of "_ @ _"] E)
  have 1: "take 48 (drop 8 (H @ L @ F @ O' @ D)) = L"
    by (rule take_drop_middle [OF lH lL])
  have 2: "take 1024 (drop 56 (H @ L @ F @ O' @ D)) = F"
    using take_drop_middle [of "H @ L" 56 F 1024 "O' @ D"] lH lL lF by simp
  have 3: "take (20 * ?N) (drop (56 + 1024) (H @ L @ F @ O' @ D)) = O'"
    using take_drop_middle [of "H @ L @ F" "56 + 1024" O' "20 * ?N" D] lH lL lF lO by simp
  have 4: "drop (56 + 1024 + 20 * ?N) (H @ L @ F @ O' @ D) = D"
    using lH lL lF lO by simp
  have 5: "length (H @ L @ F @ O' @ D) = 56 + 1024 + 56 * ?N"
    using lH lL lF lO lD by simp
  show ?thesis
    unfolding Let_def b using 1 2 3 4 5
    by (simp only: L_def F_def O'_def D_def)
qed

section \<open>The recorded offsets when there is no OVERFLOW_EDGES chunk\<close>

text \<open>
  C1, on a store without commits and on a store with one root commit: in both the lookup
  table records the FANOUT chunk at byte 68, while the FANOUT chunk begins at byte
  \<open>8 + (3 + 1) * 12 = 56\<close>; the terminating entry records the end of the chunks at byte
  1092 (1148 with the one commit), while the chunks end, and the trailer begins, at byte
  1080 (1136).
\<close>

theorem chunk_offsets_without_overflow_chunk:
  "commit_table db [] = ([], 0)
   \<and> take 12 (drop 8 (graph_body [] 0)) = htonl GRAPH_CHUNKID_OIDFANOUT @ htonl 0 @ htonl 68
   \<and> take 1024 (drop 56 (graph_body [] 0)) = write_graph_chunk_fanout [] []
   \<and> take 12 (drop 44 (graph_body [] 0)) = htonl 0 @ htonl 0 @ htonl 1092
   \<and> length (graph_body [] 0) = 1080
   \<and> commit_table (\<lambda>x. (example_oid 101, [], 1000)) [example_oid 1]
       = ([example_commit 1 [] 1000], 0)
   \<and> take 12 (drop 8 (graph_body [example_commit 1 [] 1000] 0))
       = htonl GRAPH_CHUNKID_OIDFANOUT @ htonl 0 @ htonl 68
   \<and> take 1024 (drop 56 (graph_body [example_commit 1 [] 1000] 0))
       = write_graph_chunk_fanout [] [example_commit 1 [] 1000]
   \<and> take 12 (drop 44 (graph_body [example_commit 1 [] 1000] 0)) = htonl 0 @ htonl 0 @ htonl 1148
   \<and> length (graph_body [example_commit 1 [] 1000] 0) = 1136"
proof -
  let ?T = "[example_commit 1 [] 1000]"
  have e1: "take 1024 (drop 56 (graph_body [] 0)) = write_graph_chunk_fanout [] []"
    using fanout_empty [of "[]"] by (simp add: graph_body_empty)
  have e2: "take 12 (drop 8 (graph_body [] 0))
      = htonl GRAPH_CHUNKID_OIDFANOUT @ htonl 0 @ htonl 68"
    by (simp add: graph_body_empty)
  have e3: "take 12 (drop 44 (graph_body [] 0)) = htonl 0 @ htonl 0 @ htonl 1092"
    by (simp add: graph_body_empty)
  have c: "commit_table (\<lambda>x. (example_oid 101, [], 1000)) [example_oid 1] = (?T, 0)"
    by (simp add: commit_table_eq kept_oids_def long_edges_of_def lookup_commit_def
        example_commit_def)
  have w: "\<forall>c \<in> set ?T. length (oid c) = 20 \<and> length (tree c) = 20"
    by (simp add: example_commit_def example_oid_def)
  have z: "overflow_entries ?T = 0"
    by (simp add: commit_overflow_def example_commit_def)
  have n: "36 * length ?T < 2 ^ 31" by simp
  note l = graph_layout_three_chunks [OF w z n, unfolded Let_def]
  have t: "take 48 (drop 8 (graph_body ?T 0))
      = htonl GRAPH_CHUNKID_OIDFANOUT @ htonl 0 @ htonl 68
      @ htonl GRAPH_CHUNKID_OIDLOOKUP @ htonl 0 @ htonl 1092
      @ htonl GRAPH_CHUNKID_DATA @ htonl 0 @ htonl 1112
      @ htonl 0 @ htonl 0 @ htonl 1148"
    using l [THEN conjunct1] by (simp add: be64_def)
  have a: "take 12 (drop 8 (graph_body ?T 0)) = take 12 (take 48 (drop 8 (graph_body ?T 0)))"
    by simp
  have b: "take 12 (drop 44 (graph_body ?T 0)) = drop 36 (take 48 (drop 8 (graph_body ?T 0)))"
    by (simp add: drop_take)
  have s1: "take 12 (drop 8 (graph_body ?T 0))
      = htonl GRAPH_CHUNKID_OIDFANOUT @ htonl 0 @ htonl 68"
    unfolding a t by simp
  have s2: "take 12 (drop 44 (graph_body ?T 0)) = htonl 0 @ htonl 0 @ htonl 1148"
    unfolding b t by simp
  have s3: "take 1024 (drop 56 (graph_body ?T 0)) = write_graph_chunk_fanout [] ?T"
    using l by simp
  have s4: "length (graph_body ?T 0) = 1136" using l by simp
  show ?thesis
    using commit_table_empty [of db] length_graph_body_empty e1 e2 e3 c s1 s2 s3 s4 by blast
qed

end
